theory Spec2Isabelle
  imports Main "HOL-Library.Word" "HOL-Library.Sublist"
begin

unbundle bit_operations_syntax

section \<open>QuickZipStream: a streamed ZIP / ZIP64 writer\<close>

text \<open>
  A shallow embedding of \<^verbatim>\<open>server/src/QuickZipStream.ts\<close>.

  JavaScript numbers are modelled as unbounded integers (\<open>nat\<close> for byte counts and
  offsets, \<open>int\<close> for the values handed to the binary packer); this is exact below
  \<open>2 ^ 53\<close>. A Buffer is a list of bytes. The Node \<^verbatim>\<open>Readable\<close> the class extends
  is reduced to what the class does with it: the bytes given to \<^verbatim>\<open>push\<close> before
  end-of-stream, and the end-of-stream mark set by \<^verbatim>\<open>push(null)\<close>. The consumer never
  destroys the stream (\<^verbatim>\<open>this.destroyed\<close> stays false) and the sources' streams emit
  their chunks and then \<^verbatim>\<open>end\<close>.
\<close>

subsection \<open>Data\<close>

type_synonym byte = "8 word"

definition ZIP64_LIMIT :: nat where
  "ZIP64_LIMIT = 2 ^ 31 - 1"

text \<open>
  What the packer can throw: Node's \<^verbatim>\<open>ERR_OUT_OF_RANGE\<close> from a
  \<^verbatim>\<open>writeUInt...\<close> call, the string \<^verbatim>\<open>'unsupported'\<close>, and the failed
  \<^verbatim>\<open>assert\<close> on an odd number of array items.
\<close>

datatype error = ERR_OUT_OF_RANGE | Unsupported | AssertionError

text \<open>
  A \<^verbatim>\<open>Date\<close>: its time value (\<^verbatim>\<open>Number(ts)\<close>, milliseconds since the epoch) and
  the local-time getters the code reads. \<open>valid_Date\<close> gives the ranges ECMAScript
  guarantees for the getters of a valid date. An invalid date (time value \<^verbatim>\<open>NaN\<close>) is
  not modelled.
\<close>

record Date =
  getTime :: int
  getFullYear :: int
  getMonth :: int
  getDate :: int
  getHours :: int
  getMinutes :: int
  getSeconds :: int

definition valid_Date :: "Date \<Rightarrow> bool" where
  "valid_Date d \<longleftrightarrow>
     0 \<le> getMonth d \<and> getMonth d \<le> 11 \<and> 1 \<le> getDate d \<and> getDate d \<le> 31 \<and>
     0 \<le> getHours d \<and> getHours d \<le> 23 \<and> 0 \<le> getMinutes d \<and> getMinutes d \<le> 59 \<and>
     0 \<le> getSeconds d \<and> getSeconds d \<le> 59"

text \<open>
  \<^verbatim>\<open>interface ZipSource\<close>. \<open>path\<close> holds the UTF-8 bytes of the name, one
  \<open>char\<close> per byte; \<open>getData\<close> is the list of chunks the deferred stream emits
  before its \<^verbatim>\<open>end\<close> event.
\<close>

record ZipSource =
  path :: string
  sourcePath :: "string option"
  getData :: "byte list list"
  size_src :: nat
  ts :: Date
  mode :: "int option"

record centralDirEntry =
  size_cd :: nat
  crc_cd :: "32 word"
  ts_cd :: Date
  pathAsBuffer :: "byte list"
  offset_cd :: nat
  version_cd :: nat
  extAttr :: int

text \<open>\<^verbatim>\<open>interface CrcCacheEntry\<close> and the module-wide \<^verbatim>\<open>crcCache\<close>.\<close>

record CrcCacheEntry =
  ts_cache :: Date
  crc_cache :: "32 word"

type_synonym crcCache = "string \<rightharpoonup> CrcCacheEntry"

text \<open>
  The fields of the class, followed by its surroundings: \<open>walker\<close> is what the provider
  has not yielded yet, \<open>cache\<close> the module's \<^verbatim>\<open>crcCache\<close>, \<open>pushed\<close> the bytes given to
  \<^verbatim>\<open>Readable.push\<close>, \<open>ended\<close> whether \<^verbatim>\<open>push(null)\<close> was called, and \<open>opened\<close> the
  number of \<^verbatim>\<open>getData()\<close> calls made so far.
\<close>

record QuickZipStream =
  workingFile :: bool
  numberOfFiles :: nat
  finished :: bool
  centralDir :: "centralDirEntry list"
  dataWritten :: nat
  consumedCalculating :: "ZipSource list"
  skip :: nat
  limit :: "nat option"
  walker :: "ZipSource list"
  cache :: crcCache
  pushed :: "byte list"
  ended :: bool
  opened :: nat

text \<open>\<^verbatim>\<open>new QuickZipStream(walker)\<close>, with the cache as the module holds it.\<close>

definition new_QuickZipStream :: "ZipSource list \<Rightarrow> crcCache \<Rightarrow> QuickZipStream" where
  "new_QuickZipStream w c =
     \<lparr>workingFile = False, numberOfFiles = 0, finished = False, centralDir = [],
      dataWritten = 0, consumedCalculating = [], skip = 0, limit = None,
      walker = w, cache = c, pushed = [], ended = False, opened = 0\<rparr>"

subsection \<open>Binary packing helpers\<close>

text \<open>The \<open>n\<close> low bytes of \<open>v\<close>, least significant first.\<close>

fun le_bytes :: "nat \<Rightarrow> int \<Rightarrow> byte list" where
  "le_bytes 0 v = []"
| "le_bytes (Suc n) v = word_of_int v # le_bytes n (v div 256)"

text \<open>
  \<^verbatim>\<open>writeUInt8\<close>, \<^verbatim>\<open>writeUInt16LE\<close>, \<^verbatim>\<open>writeUInt32LE\<close> and
  \<^verbatim>\<open>writeBigUInt64LE\<close>: each throws when the value is outside the field.
\<close>

definition writeUIntLE :: "nat \<Rightarrow> int \<Rightarrow> error + byte list" where
  "writeUIntLE n v =
     (if 0 \<le> v \<and> v < 256 ^ n then Inr (le_bytes n v) else Inl ERR_OUT_OF_RANGE)"

definition write_field :: "int \<Rightarrow> int \<Rightarrow> error + byte list" where
  "write_field sz data =
     (if sz = 1 then writeUIntLE 1 data
      else if sz = 2 then writeUIntLE 2 data
      else if sz = 4 then writeUIntLE 4 data
      else if sz = 8 then writeUIntLE 8 data
      else Inl Unsupported)"

fun write_pairs :: "int list \<Rightarrow> error + byte list" where
  "write_pairs (sz # data # rest) =
     (case write_field sz data of
        Inl e \<Rightarrow> Inl e
      | Inr bs \<Rightarrow> (case write_pairs rest of Inl e \<Rightarrow> Inl e | Inr bs' \<Rightarrow> Inr (bs @ bs')))"
| "write_pairs _ = Inr []"

definition buffer :: "int list \<Rightarrow> error + byte list" where
  "buffer pairs =
     (if length pairs mod 2 \<noteq> 0 then Inl AssertionError else write_pairs pairs)"

text \<open>
  \<^verbatim>\<open>ts2buf\<close>. In JavaScript \<^verbatim>\<open><<\<close> binds tighter than \<^verbatim>\<open>&\<close>, which binds tighter
  than \<^verbatim>\<open>|\<close>, so the mask \<^verbatim>\<open>0x0F\<close> of the second line applies to
  \<^verbatim>\<open>ts.getSeconds() / 2\<close> alone; \<^verbatim>\<open>&\<close> truncates the quotient to an integer first.
\<close>

definition ts2buf :: "Date \<Rightarrow> int list" where
  "ts2buf d =
     (let date = push_bit 9 ((getFullYear d - 1980) AND 0x7F)
                 OR push_bit 5 (getMonth d + 1) OR getDate d;
          time = push_bit 11 (getHours d) OR push_bit 5 (getMinutes d)
                 OR ((getSeconds d div 2) AND 0x0F)
      in [2, time, 2, date])"

text \<open>\<^verbatim>\<open>Buffer.from(path, 'utf8')\<close>.\<close>

definition utf8 :: "string \<Rightarrow> byte list" where
  "utf8 s = map (\<lambda>c. word_of_nat (of_char c)) s"

subsection \<open>Output and range slicing\<close>

text \<open>
  \<^verbatim>\<open>Readable.push(chunk)\<close>: after end-of-stream nothing is delivered any more (Node
  reports \<^verbatim>\<open>ERR_STREAM_PUSH_AFTER_EOF\<close> on the stream).
\<close>

definition readable_push :: "QuickZipStream \<Rightarrow> byte list \<Rightarrow> QuickZipStream" where
  "readable_push st chunk = (if ended st then st else st\<lparr>pushed := pushed st @ chunk\<rparr>)"

definition earlyClose :: "QuickZipStream \<Rightarrow> QuickZipStream" where
  "earlyClose st = st\<lparr>finished := True, ended := True\<rparr>"

definition applyRange :: "nat \<Rightarrow> nat \<Rightarrow> QuickZipStream \<Rightarrow> QuickZipStream" where
  "applyRange start end st =
     (if end < start then earlyClose st
      else st\<lparr>skip := start, limit := Some (end - start + 1)\<rparr>)"

text \<open>\<^verbatim>\<open>_push\<close> on a Buffer.\<close>

definition do_push :: "byte list \<Rightarrow> QuickZipStream \<Rightarrow> QuickZipStream" where
  "do_push chunk st =
     (let st1 = st\<lparr>dataWritten := dataWritten st + length chunk\<rparr> in
      if skip st1 \<noteq> 0 \<and> skip st1 \<ge> length chunk
      then st1\<lparr>skip := skip st1 - length chunk\<rparr>
      else
        let chunk1 = (if skip st1 \<noteq> 0 then drop (skip st1) chunk else chunk);
            st2 = (if skip st1 \<noteq> 0 then st1\<lparr>skip := 0\<rparr> else st1);
            lastBit = (case limit st2 of None \<Rightarrow> False | Some l \<Rightarrow> l < length chunk1);
            chunk2 = (case limit st2 of
                        None \<Rightarrow> chunk1
                      | Some l \<Rightarrow> if lastBit then take l chunk1 else chunk1);
            st3 = readable_push st2 chunk2
        in if lastBit then earlyClose st3 else st3)"

text \<open>\<^verbatim>\<open>_push\<close> on an array of (width, value) items, packed by \<^verbatim>\<open>buffer\<close> first.\<close>

definition do_push_array :: "int list \<Rightarrow> QuickZipStream \<Rightarrow> error + QuickZipStream" where
  "do_push_array pairs st =
     (case buffer pairs of Inl e \<Rightarrow> Inl e | Inr chunk \<Rightarrow> Inr (do_push chunk st))"

subsection \<open>Size estimation\<close>

text \<open>
  The \<^verbatim>\<open>while\<close> loop of \<^verbatim>\<open>calculateSize\<close>. The clock is the first argument: the
  number of iterations that still start before the deadline \<^verbatim>\<open>endBy\<close>. The result is
  \<open>False\<close> when the deadline ended the loop (\<^verbatim>\<open>return NaN\<close>), \<open>True\<close> when the
  provider was exhausted (\<^verbatim>\<open>break\<close>).
\<close>

fun calculateSize_pull :: "nat \<Rightarrow> QuickZipStream \<Rightarrow> bool \<times> QuickZipStream" where
  "calculateSize_pull 0 st = (False, st)"
| "calculateSize_pull (Suc n) st =
     (case walker st of
        [] \<Rightarrow> (True, st)
      | value # rest \<Rightarrow>
          calculateSize_pull n
            (st\<lparr>walker := rest, consumedCalculating := consumedCalculating st @ [value]\<rparr>))"

text \<open>The \<^verbatim>\<open>for\<close> loop of \<^verbatim>\<open>calculateSize\<close>, on (\<open>offset\<close>, \<open>centralDirSize\<close>).\<close>

fun calculateSize_sum :: "ZipSource list \<Rightarrow> nat \<Rightarrow> nat \<Rightarrow> nat \<times> nat" where
  "calculateSize_sum [] offset centralDirSize = (offset, centralDirSize)"
| "calculateSize_sum (file # files) offset centralDirSize =
     (let pathSize = length (utf8 (path file));
          extraLength = (if size_src file > ZIP64_LIMIT then 2 else 0)
                        + (if offset > ZIP64_LIMIT then 1 else (0::nat));
          extraDataSize = (if extraLength = 0 then 0 else 2+2 + extraLength*8)
      in calculateSize_sum files
           (offset + (4+2+2+2+ 4+4+4+4+ 2+2+ pathSize + size_src file))
           (centralDirSize + (4+2+2+2+2+ 4+4+4+4+ 2+2+2+2+2+ 4+4 + pathSize + extraDataSize)))"

text \<open>\<^verbatim>\<open>calculateSize\<close>: \<open>None\<close> is \<^verbatim>\<open>NaN\<close>.\<close>

definition calculateSize :: "nat \<Rightarrow> QuickZipStream \<Rightarrow> nat option \<times> QuickZipStream" where
  "calculateSize howLong st =
     (case calculateSize_pull howLong st of
        (False, st1) \<Rightarrow> (None, st1)
      | (True, st1) \<Rightarrow>
          (let (offset, centralDirSize) = calculateSize_sum (consumedCalculating st1) 0 0;
               centralOffset = offset;
               centralDirSize1 = (if centralOffset > ZIP64_LIMIT
                                  then centralDirSize + (4+8+2+2+4+4+8+8+8+8+4+4+8+4)
                                  else centralDirSize);
               centralDirSize2 = centralDirSize1 + (4+4+2+2+4+4+2)
           in (Some (offset + centralDirSize2), st1)))"

subsection \<open>The central directory and the end records\<close>

text \<open>
  One iteration of the loop of \<^verbatim>\<open>closeArchive\<close>, split in two: the zip64 extra
  values with the classic fields that replace the overflowing ones, then the record.
\<close>

definition central_extra :: "centralDirEntry \<Rightarrow> int list \<times> int \<times> int" where
  "central_extra e =
     (let extra1 = (if size_cd e > ZIP64_LIMIT then [int (size_cd e), int (size_cd e)] else []);
          sz = (if size_cd e > ZIP64_LIMIT then 0xffffffff else int (size_cd e));
          extra2 = (if offset_cd e > ZIP64_LIMIT then extra1 @ [int (offset_cd e)] else extra1);
          off = (if offset_cd e > ZIP64_LIMIT then 0xffffffff else int (offset_cd e))
      in (extra2, sz, off))"

definition central_extraData :: "int list \<Rightarrow> error + byte list" where
  "central_extraData extra =
     buffer (if length extra = 0 then []
             else [2,1, 2, 8 * int (length extra)] @ concat (map (\<lambda>x. [8, x]) extra))"

definition central_version :: "centralDirEntry \<Rightarrow> byte list \<Rightarrow> nat" where
  "central_version e extraData =
     (if length extraData \<noteq> 0 \<and> version_cd e < 45 then 45 else version_cd e)"

definition central_header :: "centralDirEntry \<Rightarrow> byte list \<Rightarrow> int \<Rightarrow> int \<Rightarrow> int list" where
  "central_header e extraData sz off =
     (let version = int (central_version e extraData) in
      [4, 0x02014b50,
       2, version,
       2, version,
       2, 0x08,
       2, 0]
      @ ts2buf (ts_cd e) @
      [4, uint (crc_cd e),
       4, sz,
       4, sz,
       2, int (length (pathAsBuffer e)),
       2, int (length extraData),
       2, 0,
       2, 0,
       2, 0,
       4, extAttr e,
       4, off])"

definition central_record :: "centralDirEntry \<Rightarrow> QuickZipStream \<Rightarrow> error + QuickZipStream" where
  "central_record e st =
     (case central_extra e of (extra, sz, off) \<Rightarrow>
        (case central_extraData extra of
           Inl err \<Rightarrow> Inl err
         | Inr extraData \<Rightarrow>
             (case do_push_array (central_header e extraData sz off) st of
                Inl err \<Rightarrow> Inl err
              | Inr st1 \<Rightarrow> Inr (do_push extraData (do_push (pathAsBuffer e) st1)))))"

fun central_records :: "centralDirEntry list \<Rightarrow> QuickZipStream \<Rightarrow> error + QuickZipStream" where
  "central_records [] st = Inr st"
| "central_records (e # es) st =
     (case central_record e st of Inl err \<Rightarrow> Inl err | Inr st1 \<Rightarrow> central_records es st1)"

text \<open>The two zip64 end records of \<^verbatim>\<open>closeArchive\<close>.\<close>

definition zip64_end :: "nat \<Rightarrow> nat \<Rightarrow> nat \<Rightarrow> nat \<Rightarrow> QuickZipStream \<Rightarrow> error + QuickZipStream" where
  "zip64_end n centralSize centralOffset after st =
     (case do_push_array
             [4, 0x06064b50,
              8, 44,
              2, 45,
              2, 45,
              4, 0,
              4, 0,
              8, int n,
              8, int n,
              8, int centralSize,
              8, int centralOffset] st of
        Inl err \<Rightarrow> Inl err
      | Inr st1 \<Rightarrow>
          do_push_array
            [4, 0x07064b50,
             4, 0,
             8, int after,
             4, 1] st1)"

definition end_of_central_directory :: "nat \<Rightarrow> nat \<Rightarrow> int \<Rightarrow> int list" where
  "end_of_central_directory files centralSize centralOffset =
     [4, 0x06054b50,
      4, 0,
      2, int files,
      2, int files,
      4, int centralSize,
      4, centralOffset,
      2, 0]"

definition closeArchive :: "QuickZipStream \<Rightarrow> error + QuickZipStream" where
  "closeArchive st0 =
     (let st = st0\<lparr>finished := True\<rparr>;
          centralOffset = dataWritten st
      in case central_records (centralDir st) st of
           Inl err \<Rightarrow> Inl err
         | Inr st1 \<Rightarrow>
             (let n = length (centralDir st1);
                  after = dataWritten st1;
                  centralSize = after - centralOffset
              in case (if centralOffset > ZIP64_LIMIT
                       then zip64_end n centralSize centralOffset after st1
                       else Inr st1) of
                   Inl err \<Rightarrow> Inl err
                 | Inr st2 \<Rightarrow>
                     (let centralOffset1 = (if centralOffset > ZIP64_LIMIT then 0xFFFFFFFF
                                            else int centralOffset)
                      in case do_push_array
                                (end_of_central_directory (numberOfFiles st2) centralSize
                                   centralOffset1) st2 of
                           Inl err \<Rightarrow> Inl err
                         | Inr st3 \<Rightarrow> Inr (st3\<lparr>ended := True\<rparr>))))"

subsection \<open>Reading one source\<close>

text \<open>
  The checksum library (\<^verbatim>\<open>@node-rs/crc32\<close>, or \<^verbatim>\<open>buffer-crc32\<close>) is not part of the
  repository: \<open>crc32function\<close> is a parameter wherever it is called, taking the chunk and
  the optional previous state.
\<close>

type_synonym crc32 = "byte list \<Rightarrow> 32 word option \<Rightarrow> 32 word"

text \<open>\<^verbatim>\<open>sourcePath ? ... : undefined\<close>: the empty string counts as absent.\<close>

definition truthy_sourcePath :: "ZipSource \<Rightarrow> string option" where
  "truthy_sourcePath file =
     (case sourcePath file of None \<Rightarrow> None | Some p \<Rightarrow> if p = [] then None else Some p)"

definition cache_lookup :: "crcCache \<Rightarrow> ZipSource \<Rightarrow> CrcCacheEntry option" where
  "cache_lookup c file = (case truthy_sourcePath file of None \<Rightarrow> None | Some p \<Rightarrow> c p)"

text \<open>\<^verbatim>\<open>Number(cache?.ts) === Number(ts)\<close>; a missing entry gives \<^verbatim>\<open>NaN\<close>.\<close>

definition cacheHit :: "crcCache \<Rightarrow> ZipSource \<Rightarrow> bool" where
  "cacheHit c file =
     (case cache_lookup c file of
        None \<Rightarrow> False
      | Some entry \<Rightarrow> getTime (ts_cache entry) = getTime (ts file))"

definition ToInt32 :: "int \<Rightarrow> int" where
  "ToInt32 x = (let r = x mod 2 ^ 32 in if r \<ge> 2 ^ 31 then r - 2 ^ 32 else r)"

definition extAttr_of :: "ZipSource \<Rightarrow> int" where
  "extAttr_of file =
     (case mode file of
        None \<Rightarrow> 0
      | Some m \<Rightarrow> if m = 0 then 0 else (ToInt32 m OR 0x8000) * 0x10000)"

definition local_header :: "ZipSource \<Rightarrow> int list" where
  "local_header file =
     (let version = 20 in
      [4, 0x04034b50,
       2, version,
       2, 0x08,
       2, 0]
      @ ts2buf (ts file) @
      [4, 0,
       4, 0,
       4, 0,
       2, int (length (utf8 (path file))),
       2, 0])"

text \<open>The \<^verbatim>\<open>end\<close> handler of the source's stream.\<close>

definition on_end :: "ZipSource \<Rightarrow> centralDirEntry \<Rightarrow> 32 word \<Rightarrow> QuickZipStream \<Rightarrow> QuickZipStream" where
  "on_end file centralDirEntry crc st =
     (let st1 = st\<lparr>workingFile := False\<rparr>;
          entry = centralDirEntry\<lparr>crc_cd := crc\<rparr>;
          st2 = (case truthy_sourcePath file of
                   None \<Rightarrow> st1
                 | Some p \<Rightarrow> st1\<lparr>cache := (cache st1)(p \<mapsto> \<lparr>ts_cache = ts file, crc_cache = crc\<rparr>)\<rparr>)
      in st2\<lparr>centralDir := centralDir st2 @ [entry]\<rparr>)"

text \<open>
  The \<^verbatim>\<open>data\<close> events of the source's stream, one per chunk, then \<^verbatim>\<open>end\<close>. Once
  the stream is finished the source is destroyed: no further event, and no \<^verbatim>\<open>end\<close>.
\<close>

fun on_data :: "crc32 \<Rightarrow> bool \<Rightarrow> ZipSource \<Rightarrow> centralDirEntry \<Rightarrow> 32 word \<Rightarrow> byte list list
                \<Rightarrow> QuickZipStream \<Rightarrow> QuickZipStream" where
  "on_data crc32function hit file centralDirEntry crc [] st = on_end file centralDirEntry crc st"
| "on_data crc32function hit file centralDirEntry crc (chunk # chunks) st =
     (let st1 = do_push chunk st;
          crc1 = (if \<not> hit then crc32function chunk (Some crc) else crc)
      in if finished st1 then st1
         else on_data crc32function hit file centralDirEntry crc1 chunks st1)"

text \<open>\<^verbatim>\<open>this.consumedCalculating.shift() || (await this.walker.next()).value\<close>.\<close>

definition next_file :: "QuickZipStream \<Rightarrow> ZipSource option \<times> QuickZipStream" where
  "next_file st =
     (case consumedCalculating st of
        file # rest \<Rightarrow> (Some file, st\<lparr>consumedCalculating := rest\<rparr>)
      | [] \<Rightarrow> (case walker st of
                 file # rest \<Rightarrow> (Some file, st\<lparr>walker := rest\<rparr>)
               | [] \<Rightarrow> (None, st)))"

text \<open>
  What \<^verbatim>\<open>_read\<close> does with a source once its local header and path are out: lines
  119 to 150, with the events of the source's stream run to their end.
\<close>

definition read_data :: "crc32 \<Rightarrow> ZipSource \<Rightarrow> nat \<Rightarrow> QuickZipStream \<Rightarrow> QuickZipStream" where
  "read_data crc32function file offset st =
     (let hit = cacheHit (cache st) file;
          crc = (if hit then crc_cache (the (cache_lookup (cache st) file))
                 else crc32function [] None);
          centralDirEntry =
            \<lparr>size_cd = size_src file, crc_cd = crc, ts_cd = ts file,
             pathAsBuffer = utf8 (path file), offset_cd = offset, version_cd = 20,
             extAttr = extAttr_of file\<rparr>
      in if skip st \<ge> size_src file \<and> hit
         then st\<lparr>skip := skip st - size_src file,
                 dataWritten := dataWritten st + size_src file,
                 centralDir := centralDir st @ [centralDirEntry]\<rparr>
         else on_data crc32function hit file centralDirEntry crc (getData file)
                (st\<lparr>opened := opened st + 1, workingFile := True\<rparr>))"

text \<open>The two pushes at the start of \<^verbatim>\<open>_read\<close>: the local header, then the path.\<close>

definition push_local_header :: "ZipSource \<Rightarrow> QuickZipStream \<Rightarrow> error + QuickZipStream" where
  "push_local_header file st =
     (case do_push_array (local_header file) st of
        Inl err \<Rightarrow> Inl err
      | Inr st2 \<Rightarrow> Inr (do_push (utf8 (path file)) st2))"

text \<open>\<^verbatim>\<open>_read\<close>.\<close>

definition do_read :: "crc32 \<Rightarrow> QuickZipStream \<Rightarrow> error + QuickZipStream" where
  "do_read crc32function st =
     (if workingFile st \<or> finished st then Inr st
      else case next_file st of
             (None, st0) \<Rightarrow> closeArchive st0
           | (Some file, st0) \<Rightarrow>
               (let st1 = st0\<lparr>numberOfFiles := numberOfFiles st0 + 1\<rparr>;
                    offset = dataWritten st1
                in case push_local_header file st1 of
                     Inl err \<Rightarrow> Inl err
                   | Inr st3 \<Rightarrow>
                       if finished st3 then Inr st3
                       else Inr (read_data crc32function file offset st3)))"

text \<open>
  The consumer's demand: \<open>reads k\<close> is \<open>k\<close> calls of \<^verbatim>\<open>_read\<close> in a row, stopping at
  the first fault. A full drain asks once per source still to come and once more for the
  directory.
\<close>

fun reads :: "crc32 \<Rightarrow> nat \<Rightarrow> QuickZipStream \<Rightarrow> error + QuickZipStream" where
  "reads crc32function 0 st = Inr st"
| "reads crc32function (Suc k) st =
     (case do_read crc32function st of
        Inl err \<Rightarrow> Inl err
      | Inr st1 \<Rightarrow> reads crc32function k st1)"

definition pending :: "QuickZipStream \<Rightarrow> ZipSource list" where
  "pending st = consumedCalculating st @ walker st"

definition drain :: "crc32 \<Rightarrow> QuickZipStream \<Rightarrow> error + QuickZipStream" where
  "drain crc32function st = reads crc32function (Suc (length (pending st))) st"


subsection \<open>Reading the output back\<close>

text \<open>
  The functions below are not in the source; the theorems use them to speak about the
  bytes produced. \<open>le_decode\<close> reads a little-endian field, \<open>pairs_total\<close> is the
  \<^verbatim>\<open>total\<close> that \<^verbatim>\<open>buffer\<close> allocates, \<open>widths_ok\<close> says that an array has an even
  number of items and only widths the packer supports.
\<close>

fun le_decode :: "byte list \<Rightarrow> int" where
  "le_decode [] = 0"
| "le_decode (b # bs) = uint b + 256 * le_decode bs"

fun pairs_total :: "int list \<Rightarrow> nat" where
  "pairs_total (sz # data # rest) = nat sz + pairs_total rest"
| "pairs_total _ = 0"

fun widths_ok :: "int list \<Rightarrow> bool" where
  "widths_ok [] = True"
| "widths_ok (sz # data # rest) = ((sz = 1 \<or> sz = 2 \<or> sz = 4 \<or> sz = 8) \<and> widths_ok rest)"
| "widths_ok _ = False"

text \<open>
  The size of the zip64 extra field of an entry and of the whole central directory, as
  \<^verbatim>\<open>closeArchive\<close> writes them.
\<close>

definition extra_size :: "centralDirEntry \<Rightarrow> nat" where
  "extra_size e =
     (let n = (if size_cd e > ZIP64_LIMIT then 2 else 0)
              + (if offset_cd e > ZIP64_LIMIT then 1 else (0::nat))
      in if n = 0 then 0 else 4 + 8 * n)"

definition central_size :: "centralDirEntry list \<Rightarrow> nat" where
  "central_size es = sum_list (map (\<lambda>e. 46 + length (pathAsBuffer e) + extra_size e) es)"

text \<open>
  A stream on which \<^verbatim>\<open>applyRange\<close> was never called and that has not ended, and the
  fields no push touches.
\<close>

definition unranged :: "QuickZipStream \<Rightarrow> bool" where
  "unranged st \<longleftrightarrow> skip st = 0 \<and> limit st = None \<and> \<not> ended st"

definition same_frame :: "QuickZipStream \<Rightarrow> QuickZipStream \<Rightarrow> bool" where
  "same_frame st st' \<longleftrightarrow>
     numberOfFiles st' = numberOfFiles st \<and> centralDir st' = centralDir st \<and>
     consumedCalculating st' = consumedCalculating st \<and> walker st' = walker st \<and>
     cache st' = cache st \<and> opened st' = opened st \<and> workingFile st' = workingFile st \<and>
     limit st' = limit st"

text \<open>
  A source is well formed when its \<open>size\<close> is the number of bytes its stream emits (the
  descriptor's contract). \<open>checksum\<close> is the running checksum \<^verbatim>\<open>_read\<close> keeps over
  the chunks; \<open>entry_for\<close> says that a central directory entry carries the data of a
  source read at a given offset; \<open>expected_crc\<close> is the checksum \<^verbatim>\<open>_read\<close> settles on;
  \<open>skipped\<close> is the test of line 124.
\<close>

definition wf_source :: "ZipSource \<Rightarrow> bool" where
  "wf_source f \<longleftrightarrow> size_src f = length (concat (getData f))"

definition checksum :: "crc32 \<Rightarrow> byte list list \<Rightarrow> 32 word" where
  "checksum crc32function chunks =
     foldl (\<lambda>crc chunk. crc32function chunk (Some crc)) (crc32function [] None) chunks"

definition entry_for :: "ZipSource \<Rightarrow> nat \<Rightarrow> centralDirEntry \<Rightarrow> bool" where
  "entry_for file offset e \<longleftrightarrow>
     size_cd e = size_src file \<and> ts_cd e = ts file \<and> pathAsBuffer e = utf8 (path file) \<and>
     offset_cd e = offset \<and> version_cd e = 20 \<and> extAttr e = extAttr_of file"

definition expected_crc :: "crc32 \<Rightarrow> crcCache \<Rightarrow> ZipSource \<Rightarrow> 32 word" where
  "expected_crc crc32function c file =
     (if cacheHit c file then crc_cache (the (cache_lookup c file))
      else checksum crc32function (getData file))"

definition skipped :: "QuickZipStream \<Rightarrow> ZipSource \<Rightarrow> bool" where
  "skipped st file \<longleftrightarrow> skip st \<ge> size_src file \<and> cacheHit (cache st) file"

text \<open>
  Modelled from the spec: the checksum library (\<^verbatim>\<open>@node-rs/crc32\<close>, with
  \<^verbatim>\<open>buffer-crc32\<close> as fallback) is not part of the repository; the spec names the
  standard CRC-32. The theorems take the checksum function as a parameter; this
  instance runs the examples.
\<close>

definition crc32_bit :: "32 word \<Rightarrow> 32 word" where
  "crc32_bit c = (if c AND 1 = 1 then drop_bit 1 c XOR 0xEDB88320 else drop_bit 1 c)"

definition crc32_byte :: "32 word \<Rightarrow> byte \<Rightarrow> 32 word" where
  "crc32_byte c b = (crc32_bit ^^ 8) (c XOR ucast b)"

definition crc32_ieee :: crc32 where
  "crc32_ieee chunk state =
     NOT (foldl crc32_byte (NOT (case state of None \<Rightarrow> 0 | Some s \<Rightarrow> s)) chunk)"


text \<open>
  The unranged stream in closed form. \<open>stream_size\<close> is the length of the local part
  (header, path and data of every source); \<open>entries_match d\<close> says that a list of
  central directory entries is the one of a list of sources laid out from offset \<open>d\<close>
  on; \<open>local_bytes\<close> is the local part of one source; \<open>inv\<close> is what every call of
  \<^verbatim>\<open>_read\<close> preserves, whatever the range.
\<close>

definition stream_size :: "ZipSource list \<Rightarrow> nat" where
  "stream_size fs = sum_list (map (\<lambda>f. 30 + length (path f) + size_src f) fs)"

fun entries_match :: "nat \<Rightarrow> ZipSource list \<Rightarrow> centralDirEntry list \<Rightarrow> bool" where
  "entries_match d [] [] = True"
| "entries_match d (f # fs) (e # es) =
     (entry_for f d e \<and> entries_match (d + (30 + length (path f) + size_src f)) fs es)"
| "entries_match d _ _ = False"

definition local_bytes :: "ZipSource \<Rightarrow> byte list" where
  "local_bytes f =
     (case buffer (local_header f) of Inl _ \<Rightarrow> [] | Inr hdr \<Rightarrow> hdr)
     @ utf8 (path f) @ concat (getData f)"

definition inv :: "ZipSource list \<Rightarrow> QuickZipStream \<Rightarrow> bool" where
  "inv srcs st \<longleftrightarrow>
     (\<exists>done. prefix done srcs \<and> entries_match 0 done (centralDir st) \<and>
        (\<not> finished st \<longrightarrow>
           \<not> workingFile st \<and> srcs = done @ pending st \<and>
           dataWritten st = stream_size done \<and> numberOfFiles st = length done))"

text \<open>
  The size of the central directory of a list of sources laid out from offset \<open>d\<close> on:
  46 bytes, the path and the zip64 extra field of each.
\<close>

fun directory_size :: "nat \<Rightarrow> ZipSource list \<Rightarrow> nat" where
  "directory_size d [] = 0"
| "directory_size d (f # fs) =
     46 + length (path f)
     + (let n = (if size_src f > ZIP64_LIMIT then 2 else 0)
                + (if d > ZIP64_LIMIT then 1 else (0::nat))
        in if n = 0 then 0 else 4 + 8 * n)
     + directory_size (d + (30 + length (path f) + size_src f)) fs"

text \<open>
  Conditions under which the packer accepts every field of a source and of an entry.
\<close>

definition source_ok :: "ZipSource \<Rightarrow> bool" where
  "source_ok f \<longleftrightarrow>
     valid_Date (ts f) \<and> length (path f) < 65536 \<and>
     0 \<le> extAttr_of f \<and> extAttr_of f < 4294967296"

definition entry_ok :: "centralDirEntry \<Rightarrow> bool" where
  "entry_ok e \<longleftrightarrow>
     valid_Date (ts_cd e) \<and> length (pathAsBuffer e) < 65536 \<and>
     0 \<le> extAttr e \<and> extAttr e < 4294967296 \<and>
     size_cd e < 18446744073709551616 \<and> offset_cd e < 18446744073709551616 \<and>
     version_cd e = 20"

subsection \<open>Example inputs\<close>


text \<open>A date, two small sources and a cache that knows both.\<close>

definition example_date :: Date where
  "example_date =
     \<lparr>getTime = 1577836800000, getFullYear = 2020, getMonth = 0, getDate = 1,
      getHours = 0, getMinutes = 0, getSeconds = 0\<rparr>"

definition hi_txt :: ZipSource where
  "hi_txt =
     \<lparr>path = ''hi.txt'', sourcePath = Some ''/srv/hi.txt'', getData = [utf8 ''hi''],
      size_src = 2, ts = example_date, mode = None\<rparr>"

definition empty_txt :: ZipSource where
  "empty_txt =
     \<lparr>path = ''empty.txt'', sourcePath = Some ''/srv/empty.txt'', getData = [],
      size_src = 0, ts = example_date, mode = None\<rparr>"

definition example_cache :: crcCache where
  "example_cache =
     [''/srv/hi.txt'' \<mapsto> \<lparr>ts_cache = example_date, crc_cache = 0xD8932AAC\<rparr>,
      ''/srv/empty.txt'' \<mapsto> \<lparr>ts_cache = example_date, crc_cache = 0\<rparr>]"

text \<open>A source of 3,000,000,000 bytes in one chunk, unknown to the cache.\<close>

definition big_bin :: ZipSource where
  "big_bin =
     \<lparr>path = ''big.bin'', sourcePath = None, getData = [replicate 3000000000 0],
      size_src = 3000000000, ts = example_date, mode = None\<rparr>"

section \<open>Properties\<close>

subsection \<open>The packer\<close>

lemma length_le_bytes [simp]: "length (le_bytes n v) = n"
  by (induction n arbitrary: v) simp_all

lemma le_decode_le_bytes: "0 \<le> v \<Longrightarrow> v < 256 ^ n \<Longrightarrow> le_decode (le_bytes n v) = v"
proof (induction n arbitrary: v)
  case 0
  then show ?case by simp
next
  case (Suc n)
  have low: "uint (word_of_int v :: byte) = v mod 256"
    by (simp add: uint_word_of_int)
  have "0 \<le> v div 256" using Suc.prems by simp
  moreover have "v div 256 < 256 ^ n" using Suc.prems by simp 
  ultimately have "le_decode (le_bytes n (v div 256)) = v div 256" by (rule Suc.IH)
  then show ?case using low by simp
qed

lemma writeUIntLE_Inr: "writeUIntLE n v = Inr bs \<longleftrightarrow> 0 \<le> v \<and> v < 256 ^ n \<and> bs = le_bytes n v"
  by (auto simp: writeUIntLE_def)

lemma writeUIntLE_Inl: "writeUIntLE n v = Inl e \<longleftrightarrow> \<not> (0 \<le> v \<and> v < 256 ^ n) \<and> e = ERR_OUT_OF_RANGE"
  by (auto simp: writeUIntLE_def)

lemma write_field_Inr: "write_field sz data = Inr bs \<Longrightarrow> length bs = nat sz"
  by (auto simp: write_field_def writeUIntLE_def split: if_splits)

lemma write_pairs_length: "write_pairs ps = Inr bs \<Longrightarrow> length bs = pairs_total ps"
  by (induction ps arbitrary: bs rule: write_pairs.induct)
     (auto split: sum.splits dest: write_field_Inr)

lemma buffer_length: "buffer ps = Inr bs \<Longrightarrow> length bs = pairs_total ps"
  by (auto simp: buffer_def write_pairs_length split: if_splits)

lemma write_field_Inl: "write_field sz data = Inl e \<Longrightarrow> sz = 1 \<or> sz = 2 \<or> sz = 4 \<or> sz = 8 \<Longrightarrow> e = ERR_OUT_OF_RANGE"
  by (auto simp: write_field_def writeUIntLE_def split: if_splits)

lemma write_pairs_Inl: "write_pairs ps = Inl e \<Longrightarrow> widths_ok ps \<Longrightarrow> e = ERR_OUT_OF_RANGE"
  by (induction ps rule: write_pairs.induct)
     (auto split: sum.splits dest: write_field_Inl)

lemma widths_ok_even: "widths_ok ps \<Longrightarrow> length ps mod 2 = 0"
  by (induction ps rule: widths_ok.induct) auto

lemma buffer_Inl: "buffer ps = Inl e \<Longrightarrow> widths_ok ps \<Longrightarrow> e = ERR_OUT_OF_RANGE"
  by (auto simp: buffer_def widths_ok_even dest: write_pairs_Inl split: if_splits)


lemma widths_ok_concat8: "widths_ok (concat (map (\<lambda>x. [8, x]) xs))"
  by (induction xs) simp_all

lemma pairs_total_concat8: "pairs_total (concat (map (\<lambda>x. [8, x]) xs)) = 8 * length xs"
  by (induction xs) simp_all

lemma widths_ok_local_header: "widths_ok (local_header f)"
  by (simp add: local_header_def ts2buf_def)

lemma pairs_total_local_header: "pairs_total (local_header f) = 30"
  by (simp add: local_header_def ts2buf_def)

lemma widths_ok_central_header: "widths_ok (central_header e x sz off)"
  by (simp add: central_header_def ts2buf_def Let_def)

lemma pairs_total_central_header: "pairs_total (central_header e x sz off) = 46"
  by (simp add: central_header_def ts2buf_def Let_def)

lemma widths_ok_eocd: "widths_ok (end_of_central_directory f cs co)"
  by (simp add: end_of_central_directory_def)

lemma pairs_total_eocd: "pairs_total (end_of_central_directory f cs co) = 22"
  by (simp add: end_of_central_directory_def)

subsection \<open>Pushing a chunk\<close>

lemma dataWritten_do_push [simp]: "dataWritten (do_push c st) = dataWritten st + length c"
  by (simp add: do_push_def Let_def readable_push_def earlyClose_def split: option.splits)

lemma do_push_fields [simp]:
  "numberOfFiles (do_push c st) = numberOfFiles st"
  "centralDir (do_push c st) = centralDir st"
  "consumedCalculating (do_push c st) = consumedCalculating st"
  "walker (do_push c st) = walker st"
  "cache (do_push c st) = cache st"
  "opened (do_push c st) = opened st"
  "workingFile (do_push c st) = workingFile st"
  "limit (do_push c st) = limit st"
  by (simp_all add: do_push_def Let_def readable_push_def earlyClose_def split: option.splits)

lemma do_push_plain:
  "skip st = 0 \<Longrightarrow> limit st = None \<Longrightarrow> \<not> ended st \<Longrightarrow>
   do_push c st = st\<lparr>dataWritten := dataWritten st + length c, pushed := pushed st @ c\<rparr>"
  by (simp add: do_push_def Let_def readable_push_def)

lemma do_push_finished_mono: "finished st \<Longrightarrow> finished (do_push c st)"
  by (simp add: do_push_def Let_def readable_push_def earlyClose_def split: option.splits)

lemma do_push_ended_mono: "ended st \<Longrightarrow> ended (do_push c st)"
  by (simp add: do_push_def Let_def readable_push_def earlyClose_def split: option.splits)

lemma do_push_array_Inr:
  "do_push_array ps st = Inr st' \<longleftrightarrow> (\<exists>bs. buffer ps = Inr bs \<and> st' = do_push bs st)"
  by (auto simp: do_push_array_def split: sum.splits)

lemma do_push_array_Inl:
  "do_push_array ps st = Inl e \<longleftrightarrow> buffer ps = Inl e"
  by (auto simp: do_push_array_def split: sum.splits)


subsection \<open>Timestamps\<close>

text \<open>
  C7. The specification gives the time field as hour, minute and seconds/2, so that the
  stored seconds component is \<open>\<lfloor>seconds / 2\<rfloor>\<close> for every seconds value from 0 to 59.
  The code masks the halved seconds with \<^verbatim>\<open>0x0F\<close>, four bits of the five-bit field:
  at 00:00:32 on 2020-01-01 the time field is 0, where the specified encoding is 16, and
  the timestamp encodes as 00:00:00 of the same day does.
\<close>

theorem ts2buf_seconds_masked_to_four_bits:
  "ts2buf \<lparr>getTime = 1577836832000, getFullYear = 2020, getMonth = 0, getDate = 1,
           getHours = 0, getMinutes = 0, getSeconds = 32\<rparr> = [2, 0, 2, 20513]
   \<and> ts2buf \<lparr>getTime = 1577836800000, getFullYear = 2020, getMonth = 0, getDate = 1,
             getHours = 0, getMinutes = 0, getSeconds = 0\<rparr> = [2, 0, 2, 20513]
   \<and> push_bit 11 0 OR push_bit 5 0 OR (32 div 2) = (16 :: int)"
  by (simp add: ts2buf_def)

subsection \<open>Records and their bytes\<close>

lemma write_pairs_Cons_Inr:
  "write_pairs (sz # d # rest) = Inr bs \<longleftrightarrow>
     (\<exists>b1 b2. write_field sz d = Inr b1 \<and> write_pairs rest = Inr b2 \<and> bs = b1 @ b2)"
  by (auto split: sum.splits)

lemma write_field_num_Inr:
  "write_field 1 d = Inr b \<longleftrightarrow> 0 \<le> d \<and> d < 256 \<and> b = le_bytes 1 d"
  "write_field 2 d = Inr b \<longleftrightarrow> 0 \<le> d \<and> d < 65536 \<and> b = le_bytes 2 d"
  "write_field 4 d = Inr b \<longleftrightarrow> 0 \<le> d \<and> d < 4294967296 \<and> b = le_bytes 4 d"
  "write_field 8 d = Inr b \<longleftrightarrow> 0 \<le> d \<and> d < 18446744073709551616 \<and> b = le_bytes 8 d"
  by (auto simp: write_field_def writeUIntLE_def)

lemma le_bytes_eq_Nil [simp]: "le_bytes n v = [] \<longleftrightarrow> n = 0"
  by (cases n) simp_all

lemma buffer_central_header:
  assumes "buffer (central_header e x sz off) = Inr hdr"
  shows "length hdr = 46"
    and "le_decode (take 4 hdr) = 0x02014b50"
    and "le_decode (take 2 (drop 4 hdr)) = int (central_version e x)"
    and "le_decode (take 2 (drop 6 hdr)) = int (central_version e x)"
    and "le_decode (take 4 (drop 16 hdr)) = uint (crc_cd e)"
    and "le_decode (take 4 (drop 20 hdr)) = sz"
    and "le_decode (take 4 (drop 24 hdr)) = sz"
    and "le_decode (take 2 (drop 28 hdr)) = int (length (pathAsBuffer e))"
    and "le_decode (take 2 (drop 30 hdr)) = int (length x)"
    and "le_decode (take 4 (drop 42 hdr)) = off"
  using assms
  by (auto simp: buffer_def central_header_def ts2buf_def Let_def write_pairs_Cons_Inr
        write_field_num_Inr le_decode_le_bytes simp del: write_pairs.simps(1))

lemma central_extraData_Inr:
  assumes "central_extra e = (extra, sz, off)" and "central_extraData extra = Inr x"
  shows "length x = extra_size e"
    and "x = [] \<longleftrightarrow> size_cd e \<le> ZIP64_LIMIT \<and> offset_cd e \<le> ZIP64_LIMIT"
    and "sz = (if size_cd e > ZIP64_LIMIT then 0xffffffff else int (size_cd e))"
    and "off = (if offset_cd e > ZIP64_LIMIT then 0xffffffff else int (offset_cd e))"
    and "x \<noteq> [] \<Longrightarrow> le_decode (take 2 x) = 1 \<and> le_decode (take 2 (drop 2 x)) = int (length x) - 4"
    and "size_cd e > ZIP64_LIMIT \<Longrightarrow>
           le_decode (take 8 (drop 4 x)) = int (size_cd e) \<and>
           le_decode (take 8 (drop 12 x)) = int (size_cd e)"
    and "offset_cd e > ZIP64_LIMIT \<Longrightarrow>
           le_decode (take 8 (drop (if size_cd e > ZIP64_LIMIT then 20 else 4) x)) = int (offset_cd e)"
  using assms
  by (auto simp: central_extra_def central_extraData_def extra_size_def buffer_def Let_def
        write_pairs_Cons_Inr write_field_num_Inr le_decode_le_bytes
        simp del: write_pairs.simps(1) split: if_splits)

lemma same_frame_refl [simp]: "same_frame st st"
  by (simp add: same_frame_def)

lemma same_frame_trans: "same_frame a b \<Longrightarrow> same_frame b c \<Longrightarrow> same_frame a c"
  by (simp add: same_frame_def)

lemma same_frame_do_push [simp]: "same_frame st (do_push c st)"
  by (simp add: same_frame_def)

lemma same_frame_do_push_array: "do_push_array ps st = Inr st' \<Longrightarrow> same_frame st st'"
  by (auto simp: do_push_array_Inr)

lemma unranged_do_push:
  "unranged st \<Longrightarrow> unranged (do_push c st) \<and> pushed (do_push c st) = pushed st @ c \<and>
     finished (do_push c st) = finished st"
  by (simp add: unranged_def do_push_plain)

lemma central_record_Inr:
  assumes "central_record e st = Inr st'"
  shows "dataWritten st' = dataWritten st + 46 + length (pathAsBuffer e) + extra_size e"
    and "same_frame st st'"
    and "finished st \<Longrightarrow> finished st'"
proof -
  obtain extra sz off where ce: "central_extra e = (extra, sz, off)"
    by (cases "central_extra e") auto
  from assms ce obtain x hdr where x: "central_extraData extra = Inr x"
    and hdr: "buffer (central_header e x sz off) = Inr hdr"
    and st': "st' = do_push x (do_push (pathAsBuffer e) (do_push hdr st))"
    by (auto simp: central_record_def do_push_array_Inr split: sum.splits)
  show "dataWritten st' = dataWritten st + 46 + length (pathAsBuffer e) + extra_size e"
    using st' buffer_central_header(1)[OF hdr] central_extraData_Inr(1)[OF ce x] by simp
  show "same_frame st st'"
    using st' by (simp add: same_frame_def)
  show "finished st \<Longrightarrow> finished st'"
    using st' by (simp add: do_push_finished_mono)
qed

lemma central_record_unranged:
  assumes "central_record e st = Inr st'" and "unranged st"
  shows "\<exists>hdr x sz off extra. central_extra e = (extra, sz, off) \<and> central_extraData extra = Inr x \<and>
           buffer (central_header e x sz off) = Inr hdr \<and>
           pushed st' = pushed st @ hdr @ pathAsBuffer e @ x \<and> unranged st' \<and> finished st' = finished st"
proof -
  obtain extra sz off where ce: "central_extra e = (extra, sz, off)"
    by (cases "central_extra e") auto
  from assms ce obtain x hdr where x: "central_extraData extra = Inr x"
    and hdr: "buffer (central_header e x sz off) = Inr hdr"
    and st': "st' = do_push x (do_push (pathAsBuffer e) (do_push hdr st))"
    by (auto simp: central_record_def do_push_array_Inr split: sum.splits)
  have "unranged st' \<and> pushed st' = pushed st @ hdr @ pathAsBuffer e @ x \<and> finished st' = finished st"
    using st' assms(2) by (simp add: unranged_do_push)
  with ce x hdr show ?thesis by blast
qed

lemma central_records_Inr:
  "central_records es st = Inr st' \<Longrightarrow>
     dataWritten st' = dataWritten st + central_size es \<and> same_frame st st' \<and>
     (finished st \<longrightarrow> finished st')"
proof (induction es arbitrary: st)
  case Nil
  then show ?case by (simp add: central_size_def)
next
  case (Cons e es)
  from Cons.prems obtain st1 where r: "central_record e st = Inr st1"
    and rs: "central_records es st1 = Inr st'"
    by (auto split: sum.splits)
  from Cons.IH[OF rs] central_record_Inr[OF r] show ?case
    by (auto simp: central_size_def intro: same_frame_trans)
qed

lemma central_records_unranged:
  "central_records es st = Inr st' \<Longrightarrow> unranged st \<Longrightarrow>
     unranged st' \<and> length (pushed st') = length (pushed st) + central_size es \<and>
     finished st' = finished st \<and> prefix (pushed st) (pushed st')"
proof (induction es arbitrary: st)
  case Nil
  then show ?case by (simp add: central_size_def)
next
  case (Cons e es)
  from Cons.prems obtain st1 where r: "central_record e st = Inr st1"
    and rs: "central_records es st1 = Inr st'"
    by (auto split: sum.splits)
  from central_record_unranged[OF r Cons.prems(2)] obtain hdr x sz off extra where
    ce: "central_extra e = (extra, sz, off)" and x: "central_extraData extra = Inr x"
    and hdr: "buffer (central_header e x sz off) = Inr hdr"
    and p: "pushed st1 = pushed st @ hdr @ pathAsBuffer e @ x" "unranged st1" "finished st1 = finished st"
    by blast
  have len: "length (pushed st1) = length (pushed st) + 46 + length (pathAsBuffer e) + extra_size e"
    using p(1) buffer_central_header(1)[OF hdr] central_extraData_Inr(1)[OF ce x] by simp
  from Cons.IH[OF rs p(2)] len p show ?case
    by (auto simp: central_size_def prefix_def)
qed


lemma central_extraData_Inl: "central_extraData extra = Inl err \<Longrightarrow> err = ERR_OUT_OF_RANGE"
proof -
  assume a: "central_extraData extra = Inl err"
  have "widths_ok (if length extra = 0 then []
             else [2,1, 2, 8 * int (length extra)] @ concat (map (\<lambda>x. [8, x]) extra))"
    by (simp add: widths_ok_concat8)
  with a show ?thesis
    unfolding central_extraData_def by (rule buffer_Inl)
qed

lemma central_record_Inl: "central_record e st = Inl err \<Longrightarrow> err = ERR_OUT_OF_RANGE"
  by (auto simp: central_record_def do_push_array_Inl
        split: sum.splits prod.splits dest: central_extraData_Inl buffer_Inl[OF _ widths_ok_central_header])

lemma central_records_Inl: "central_records es st = Inl err \<Longrightarrow> err = ERR_OUT_OF_RANGE"
  by (induction es arbitrary: st) (auto split: sum.splits dest: central_record_Inl)

lemma zip64_end_Inl: "zip64_end n cs co after st = Inl err \<Longrightarrow> err = ERR_OUT_OF_RANGE"
  by (auto simp: zip64_end_def do_push_array_Inl split: sum.splits dest!: buffer_Inl)

lemma zip64_end_Inr:
  assumes "zip64_end n cs co after st = Inr st'"
  shows "dataWritten st' = dataWritten st + 76" and "same_frame st st'"
    and "finished st \<Longrightarrow> finished st'"
    and "unranged st \<Longrightarrow> unranged st' \<and> finished st' = finished st \<and>
           (\<exists>z. pushed st' = pushed st @ z \<and> length z = 76 \<and>
                le_decode (take 4 z) = 0x06064b50 \<and> le_decode (take 8 (drop 24 z)) = int n \<and>
                le_decode (take 8 (drop 32 z)) = int n \<and>
                le_decode (take 8 (drop 48 z)) = int co \<and>
                le_decode (take 4 (drop 56 z)) = 0x07064b50)"
proof -
  from assms obtain b1 b2 where
    b1: "buffer [4, 0x06064b50, 8, 44, 2, 45, 2, 45, 4, 0, 4, 0, 8, int n, 8, int n,
                 8, int cs, 8, int co] = Inr b1"
    and b2: "buffer [4, 0x07064b50, 4, 0, 8, int after, 4, 1] = Inr b2"
    and st': "st' = do_push b2 (do_push b1 st)"
    by (auto simp: zip64_end_def do_push_array_Inr split: sum.splits)
  have l1: "length b1 = 56" using buffer_length[OF b1] by simp
  have l2: "length b2 = 20" using buffer_length[OF b2] by simp
  show "dataWritten st' = dataWritten st + 76" using st' l1 l2 by simp
  show "same_frame st st'" using st' by (simp add: same_frame_def)
  show "finished st \<Longrightarrow> finished st'" using st' by (simp add: do_push_finished_mono)
  have d1: "le_decode (take 4 b1) = 0x06064b50" "le_decode (take 8 (drop 24 b1)) = int n"
    "le_decode (take 8 (drop 32 b1)) = int n" "le_decode (take 8 (drop 48 b1)) = int co"
    using b1
    by (auto simp: buffer_def write_pairs_Cons_Inr write_field_num_Inr le_decode_le_bytes
          simp del: write_pairs.simps(1))
  have d2: "le_decode (take 4 b2) = 0x07064b50"
    using b2
    by (auto simp: buffer_def write_pairs_Cons_Inr write_field_num_Inr le_decode_le_bytes
          simp del: write_pairs.simps(1))
  show "unranged st \<Longrightarrow> unranged st' \<and> finished st' = finished st \<and>
           (\<exists>z. pushed st' = pushed st @ z \<and> length z = 76 \<and>
                le_decode (take 4 z) = 0x06064b50 \<and> le_decode (take 8 (drop 24 z)) = int n \<and>
                le_decode (take 8 (drop 32 z)) = int n \<and>
                le_decode (take 8 (drop 48 z)) = int co \<and>
                le_decode (take 4 (drop 56 z)) = 0x07064b50)"
  proof -
    assume p: "unranged st"
    have "unranged st' \<and> finished st' = finished st \<and> pushed st' = pushed st @ (b1 @ b2)"
      using st' p by (simp add: unranged_do_push)
    moreover have "length (b1 @ b2) = 76" using l1 l2 by simp
    moreover have "le_decode (take 4 (b1 @ b2)) = 0x06064b50"
      "le_decode (take 8 (drop 24 (b1 @ b2))) = int n"
      "le_decode (take 8 (drop 32 (b1 @ b2))) = int n"
      "le_decode (take 8 (drop 48 (b1 @ b2))) = int co"
      "le_decode (take 4 (drop 56 (b1 @ b2))) = 0x07064b50"
      using d1 d2 l1 by simp_all
    ultimately show ?thesis by blast
  qed
qed

lemma buffer_eocd:
  assumes "buffer (end_of_central_directory f cs co) = Inr e"
  shows "length e = 22" and "f \<le> 65535"
    and "le_decode (take 4 e) = 0x06054b50"
    and "le_decode (take 2 (drop 8 e)) = int f"
    and "le_decode (take 2 (drop 10 e)) = int f"
    and "le_decode (take 4 (drop 12 e)) = int cs"
    and "le_decode (take 4 (drop 16 e)) = co"
  using assms
  by (auto simp: buffer_def end_of_central_directory_def write_pairs_Cons_Inr
        write_field_num_Inr le_decode_le_bytes simp del: write_pairs.simps(1))

lemma buffer_eocd_too_many:
  "f > 65535 \<Longrightarrow> buffer (end_of_central_directory f cs co) = Inl ERR_OUT_OF_RANGE"
  by (simp add: buffer_def end_of_central_directory_def write_field_def writeUIntLE_def)


lemma closeArchive_Inr:
  assumes "closeArchive st = Inr st'"
  shows "\<exists>st1 st2 e.
     central_records (centralDir st) (st\<lparr>finished := True\<rparr>) = Inr st1 \<and>
     (if dataWritten st > ZIP64_LIMIT
      then zip64_end (length (centralDir st)) (dataWritten st1 - dataWritten st)
             (dataWritten st) (dataWritten st1) st1 = Inr st2
      else st2 = st1) \<and>
     buffer (end_of_central_directory (numberOfFiles st) (dataWritten st1 - dataWritten st)
               (if dataWritten st > ZIP64_LIMIT then 0xFFFFFFFF else int (dataWritten st))) = Inr e \<and>
     st' = (do_push e st2)\<lparr>ended := True\<rparr>"
proof -
  from assms obtain st1 where r: "central_records (centralDir st) (st\<lparr>finished := True\<rparr>) = Inr st1"
    by (auto simp: closeArchive_def Let_def split: sum.splits)
  have f1: "same_frame (st\<lparr>finished := True\<rparr>) st1"
    using central_records_Inr[OF r] by simp
  then have n: "length (centralDir st1) = length (centralDir st)"
    by (simp add: same_frame_def)
  show ?thesis
  proof (cases "dataWritten st > ZIP64_LIMIT")
    case True
    with assms r n obtain st2 where z: "zip64_end (length (centralDir st))
        (dataWritten st1 - dataWritten st) (dataWritten st) (dataWritten st1) st1 = Inr st2"
      by (auto simp: closeArchive_def Let_def split: sum.splits)
    have "numberOfFiles st2 = numberOfFiles st"
      using zip64_end_Inr(2)[OF z] f1 by (simp add: same_frame_def)
    with assms r n z True show ?thesis
      by (auto simp: closeArchive_def Let_def do_push_array_Inr split: sum.splits)
  next
    case False
    have "numberOfFiles st1 = numberOfFiles st"
      using f1 by (simp add: same_frame_def)
    with assms r n False show ?thesis
      by (auto simp: closeArchive_def Let_def do_push_array_Inr split: sum.splits)
  qed
qed

lemma closeArchive_effect:
  assumes "closeArchive st = Inr st'"
  shows "dataWritten st' = dataWritten st + central_size (centralDir st)
           + (if dataWritten st > ZIP64_LIMIT then 76 else 0) + 22"
    and "numberOfFiles st' = numberOfFiles st \<and> centralDir st' = centralDir st \<and>
         consumedCalculating st' = consumedCalculating st \<and> walker st' = walker st \<and>
         cache st' = cache st \<and> opened st' = opened st \<and> workingFile st' = workingFile st \<and>
         limit st' = limit st"
    and "finished st'" and "ended st'" and "numberOfFiles st \<le> 65535"
    and "unranged st \<Longrightarrow> length (pushed st') = length (pushed st) + central_size (centralDir st)
           + (if dataWritten st > ZIP64_LIMIT then 76 else 0) + 22"
proof -
  from closeArchive_Inr[OF assms] obtain st1 st2 e where
    r: "central_records (centralDir st) (st\<lparr>finished := True\<rparr>) = Inr st1"
    and z: "if dataWritten st > ZIP64_LIMIT
      then zip64_end (length (centralDir st)) (dataWritten st1 - dataWritten st)
             (dataWritten st) (dataWritten st1) st1 = Inr st2
      else st2 = st1"
    and e: "buffer (end_of_central_directory (numberOfFiles st) (dataWritten st1 - dataWritten st)
               (if dataWritten st > ZIP64_LIMIT then 0xFFFFFFFF else int (dataWritten st))) = Inr e"
    and st': "st' = (do_push e st2)\<lparr>ended := True\<rparr>"
    by blast
  note r1 = central_records_Inr[OF r]
  have d2: "dataWritten st2 = dataWritten st1 + (if dataWritten st > ZIP64_LIMIT then 76 else 0)"
    and f2: "same_frame st1 st2" and fin2: "finished st2"
    using z r1 zip64_end_Inr(1-3) by (auto split: if_splits)
  show "dataWritten st' = dataWritten st + central_size (centralDir st)
           + (if dataWritten st > ZIP64_LIMIT then 76 else 0) + 22"
    using st' d2 r1 buffer_eocd(1)[OF e] by simp
  show "numberOfFiles st' = numberOfFiles st \<and> centralDir st' = centralDir st \<and>
         consumedCalculating st' = consumedCalculating st \<and> walker st' = walker st \<and>
         cache st' = cache st \<and> opened st' = opened st \<and> workingFile st' = workingFile st \<and>
         limit st' = limit st"
    using st' f2 r1 by (simp add: same_frame_def)
  show "finished st'" using st' fin2 by (simp add: do_push_finished_mono)
  show "ended st'" using st' by simp
  show "numberOfFiles st \<le> 65535" using buffer_eocd(2)[OF e] .
  show "unranged st \<Longrightarrow> length (pushed st') = length (pushed st) + central_size (centralDir st)
           + (if dataWritten st > ZIP64_LIMIT then 76 else 0) + 22"
  proof -
    assume p: "unranged st"
    then have p0: "unranged (st\<lparr>finished := True\<rparr>)" by (simp add: unranged_def)
    note c = central_records_unranged[OF r p0]
    have "unranged st2 \<and> length (pushed st2) = length (pushed st1)
            + (if dataWritten st > ZIP64_LIMIT then 76 else 0)"
    proof (cases "dataWritten st > ZIP64_LIMIT")
      case True
      with z have "zip64_end (length (centralDir st)) (dataWritten st1 - dataWritten st)
             (dataWritten st) (dataWritten st1) st1 = Inr st2" by simp
      from zip64_end_Inr(4)[OF this] c True show ?thesis by auto
    next
      case False
      with z c show ?thesis by simp
    qed
    then show ?thesis
      using st' c buffer_eocd(1)[OF e] by (simp add: unranged_do_push)
  qed
qed

lemma closeArchive_too_many:
  assumes "numberOfFiles st > 65535"
  shows "closeArchive st = Inl ERR_OUT_OF_RANGE"
proof (cases "closeArchive st")
  case (Inl err)
  show ?thesis
  proof (cases "central_records (centralDir st) (st\<lparr>finished := True\<rparr>)")
    case (Inl e1)
    with \<open>closeArchive st = Inl err\<close> central_records_Inl[OF Inl] show ?thesis
      by (simp add: closeArchive_def Let_def)
  next
    case (Inr st1)
    have f1: "numberOfFiles st1 = numberOfFiles st"
      using central_records_Inr[OF Inr] by (simp add: same_frame_def)
    show ?thesis
    proof (cases "dataWritten st > ZIP64_LIMIT")
      case False
      with Inr f1 assms show ?thesis
        by (simp add: closeArchive_def Let_def do_push_array_def buffer_eocd_too_many)
    next
      case True
      show ?thesis
      proof (cases "zip64_end (length (centralDir st1)) (dataWritten st1 - dataWritten st)
             (dataWritten st) (dataWritten st1) st1")
        case (Inl e2)
        with Inr True zip64_end_Inl[OF Inl] show ?thesis
          by (simp add: closeArchive_def Let_def)
      next
        case z: (Inr st2)
        have "numberOfFiles st2 = numberOfFiles st"
          using zip64_end_Inr(2)[OF z] f1 by (simp add: same_frame_def)
        with Inr True z assms show ?thesis
          by (simp add: closeArchive_def Let_def do_push_array_def buffer_eocd_too_many)
      qed
    qed
  qed
next
  case (Inr st')
  from closeArchive_effect(5)[OF Inr] assms show ?thesis by simp
qed

subsection \<open>Central directory records\<close>




subsection \<open>One call of _read\<close>

lemma length_utf8 [simp]: "length (utf8 p) = length p"
  by (simp add: utf8_def)

lemma push_local_header_Inr:
  assumes "push_local_header f st = Inr st3"
  shows "dataWritten st3 = dataWritten st + 30 + length (path f)"
    and "same_frame st st3"
    and "finished st \<Longrightarrow> finished st3"
    and "unranged st \<Longrightarrow> unranged st3 \<and> finished st3 = finished st \<and>
           (\<exists>hdr. buffer (local_header f) = Inr hdr \<and> length hdr = 30 \<and>
                  pushed st3 = pushed st @ hdr @ utf8 (path f))"
proof -
  from assms obtain hdr where hdr: "buffer (local_header f) = Inr hdr"
    and st3: "st3 = do_push (utf8 (path f)) (do_push hdr st)"
    by (auto simp: push_local_header_def do_push_array_Inr split: sum.splits)
  have l: "length hdr = 30"
    using buffer_length[OF hdr] by (simp add: pairs_total_local_header)
  show "dataWritten st3 = dataWritten st + 30 + length (path f)" using st3 l by simp
  show "same_frame st st3" using st3 by (simp add: same_frame_def)
  show "finished st \<Longrightarrow> finished st3" using st3 by (simp add: do_push_finished_mono)
  show "unranged st \<Longrightarrow> unranged st3 \<and> finished st3 = finished st \<and>
           (\<exists>hdr. buffer (local_header f) = Inr hdr \<and> length hdr = 30 \<and>
                  pushed st3 = pushed st @ hdr @ utf8 (path f))"
    using st3 hdr l by (simp add: unranged_do_push)
qed

lemma push_local_header_Inl: "push_local_header f st = Inl err \<Longrightarrow> err = ERR_OUT_OF_RANGE"
  by (auto simp: push_local_header_def do_push_array_Inl split: sum.splits
        dest: buffer_Inl[OF _ widths_ok_local_header])

lemma next_file_None: "next_file st = (None, st0) \<longleftrightarrow> pending st = [] \<and> st0 = st"
  by (auto simp: next_file_def pending_def split: list.splits)

lemma next_file_Some:
  "next_file st = (Some f, st0) \<Longrightarrow>
     pending st = f # pending st0 \<and>
     st0 = st\<lparr>consumedCalculating := consumedCalculating st0, walker := walker st0\<rparr>"
  by (auto simp: next_file_def pending_def split: list.splits)

lemma on_end_fields [simp]:
  "finished (on_end f e crc st) = finished st"
  "ended (on_end f e crc st) = ended st"
  "dataWritten (on_end f e crc st) = dataWritten st"
  "pushed (on_end f e crc st) = pushed st"
  "skip (on_end f e crc st) = skip st"
  "limit (on_end f e crc st) = limit st"
  "numberOfFiles (on_end f e crc st) = numberOfFiles st"
  "consumedCalculating (on_end f e crc st) = consumedCalculating st"
  "walker (on_end f e crc st) = walker st"
  "opened (on_end f e crc st) = opened st"
  "workingFile (on_end f e crc st) = False"
  "centralDir (on_end f e crc st) = centralDir st @ [e\<lparr>crc_cd := crc\<rparr>]"
  "cache (on_end f e crc st) =
     (case truthy_sourcePath f of
        None \<Rightarrow> cache st
      | Some p \<Rightarrow> (cache st)(p \<mapsto> \<lparr>ts_cache = ts f, crc_cache = crc\<rparr>))"
  by (simp_all add: on_end_def Let_def split: option.splits)

lemma on_data_frame [simp]:
  "numberOfFiles (on_data crcf hit f e crc chunks st) = numberOfFiles st"
  "consumedCalculating (on_data crcf hit f e crc chunks st) = consumedCalculating st"
  "walker (on_data crcf hit f e crc chunks st) = walker st"
  "opened (on_data crcf hit f e crc chunks st) = opened st"
  "limit (on_data crcf hit f e crc chunks st) = limit st"
  by (induction chunks arbitrary: st crc; simp add: Let_def)+

lemma on_data_finished:
  "finished (on_data crcf hit f e crc chunks st) \<Longrightarrow> \<not> finished st \<Longrightarrow>
     centralDir (on_data crcf hit f e crc chunks st) = centralDir st \<and>
     cache (on_data crcf hit f e crc chunks st) = cache st"
  by (induction chunks arbitrary: st crc) (auto simp: Let_def)

lemma on_data_completed:
  "\<not> finished (on_data crcf hit f e crc chunks st) \<Longrightarrow>
     on_data crcf hit f e crc chunks st =
       on_end f e (if hit then crc else foldl (\<lambda>c chunk. crcf chunk (Some c)) crc chunks)
         (foldl (\<lambda>s chunk. do_push chunk s) st chunks)"
  by (induction chunks arbitrary: st crc) (auto simp: Let_def)

lemma foldl_do_push_fields [simp]:
  "dataWritten (foldl (\<lambda>s chunk. do_push chunk s) st chunks) = dataWritten st + length (concat chunks)"
  "centralDir (foldl (\<lambda>s chunk. do_push chunk s) st chunks) = centralDir st"
  "cache (foldl (\<lambda>s chunk. do_push chunk s) st chunks) = cache st"
  by (induction chunks arbitrary: st; simp)+

lemma foldl_do_push_unranged:
  "unranged st \<Longrightarrow> unranged (foldl (\<lambda>s chunk. do_push chunk s) st chunks) \<and>
     pushed (foldl (\<lambda>s chunk. do_push chunk s) st chunks) = pushed st @ concat chunks \<and>
     finished (foldl (\<lambda>s chunk. do_push chunk s) st chunks) = finished st"
  by (induction chunks arbitrary: st) (simp_all add: unranged_do_push)

lemma on_data_unranged:
  "unranged st \<Longrightarrow> \<not> finished st \<Longrightarrow>
     unranged (on_data crcf hit f e crc chunks st) \<and>
     \<not> finished (on_data crcf hit f e crc chunks st) \<and>
     pushed (on_data crcf hit f e crc chunks st) = pushed st @ concat chunks"
proof (induction chunks arbitrary: st crc)
  case Nil
  then show ?case by (simp add: unranged_def)
next
  case (Cons chunk chunks)
  from unranged_do_push[OF Cons.prems(1), of chunk] Cons.prems(2)
  have u: "unranged (do_push chunk st)" "\<not> finished (do_push chunk st)"
    "pushed (do_push chunk st) = pushed st @ chunk"
    by simp_all
  from Cons.IH[OF u(1,2)] u(2,3) show ?case
    by (simp add: Let_def)
qed

lemma on_data_completed_facts:
  assumes "\<not> finished (on_data crcf hit f e crc chunks st)"
  shows "\<not> workingFile (on_data crcf hit f e crc chunks st) \<and>
     centralDir (on_data crcf hit f e crc chunks st) =
       centralDir st @ [e\<lparr>crc_cd := (if hit then crc
                                      else foldl (\<lambda>c chunk. crcf chunk (Some c)) crc chunks)\<rparr>] \<and>
     dataWritten (on_data crcf hit f e crc chunks st) = dataWritten st + length (concat chunks) \<and>
     cache (on_data crcf hit f e crc chunks st) =
       (case truthy_sourcePath f of
          None \<Rightarrow> cache st
        | Some p \<Rightarrow> (cache st)(p \<mapsto> \<lparr>ts_cache = ts f,
             crc_cache = (if hit then crc
                          else foldl (\<lambda>c chunk. crcf chunk (Some c)) crc chunks)\<rparr>))"
  unfolding on_data_completed[OF assms] by (simp split: option.splits)

lemma read_data_skipped:
  "skipped st f \<Longrightarrow>
   read_data crcf f off st =
     st\<lparr>skip := skip st - size_src f, dataWritten := dataWritten st + size_src f,
        centralDir := centralDir st @
          [\<lparr>size_cd = size_src f, crc_cd = crc_cache (the (cache_lookup (cache st) f)),
            ts_cd = ts f, pathAsBuffer = utf8 (path f), offset_cd = off, version_cd = 20,
            extAttr = extAttr_of f\<rparr>]\<rparr>"
  by (simp add: read_data_def skipped_def Let_def)

lemma read_data_streamed:
  assumes "\<not> skipped st f"
  shows "\<exists>e crc0. entry_for f off e \<and>
     crc0 = (if cacheHit (cache st) f then crc_cache (the (cache_lookup (cache st) f))
             else crcf [] None) \<and>
     read_data crcf f off st =
       on_data crcf (cacheHit (cache st) f) f e crc0 (getData f)
         (st\<lparr>opened := opened st + 1, workingFile := True\<rparr>)"
proof -
  let ?crc0 = "if cacheHit (cache st) f then crc_cache (the (cache_lookup (cache st) f))
               else crcf [] None"
  let ?e = "\<lparr>size_cd = size_src f, crc_cd = ?crc0, ts_cd = ts f,
             pathAsBuffer = utf8 (path f), offset_cd = off, version_cd = 20,
             extAttr = extAttr_of f\<rparr>"
  have "entry_for f off ?e" by (simp add: entry_for_def)
  moreover have "read_data crcf f off st =
       on_data crcf (cacheHit (cache st) f) f ?e ?crc0 (getData f)
         (st\<lparr>opened := opened st + 1, workingFile := True\<rparr>)"
    using assms unfolding read_data_def skipped_def Let_def by (simp only: if_False)
  ultimately show ?thesis by blast
qed

lemma entry_for_crc [simp]: "entry_for f off (e\<lparr>crc_cd := c\<rparr>) = entry_for f off e"
  by (simp add: entry_for_def)

lemma read_data_frame [simp]:
  "numberOfFiles (read_data crcf f off st) = numberOfFiles st"
  "consumedCalculating (read_data crcf f off st) = consumedCalculating st"
  "walker (read_data crcf f off st) = walker st"
  "limit (read_data crcf f off st) = limit st"
proof -
  have "numberOfFiles (read_data crcf f off st) = numberOfFiles st \<and>
    consumedCalculating (read_data crcf f off st) = consumedCalculating st \<and>
    walker (read_data crcf f off st) = walker st \<and>
    limit (read_data crcf f off st) = limit st"
  proof (cases "skipped st f")
    case True
    then show ?thesis by (simp add: read_data_skipped)
  next
    case False
    from read_data_streamed[OF False, of off crcf] obtain e crc0 where
      "read_data crcf f off st =
         on_data crcf (cacheHit (cache st) f) f e crc0 (getData f)
           (st\<lparr>opened := opened st + 1, workingFile := True\<rparr>)"
      by blast
    then show ?thesis by simp
  qed
  then show "numberOfFiles (read_data crcf f off st) = numberOfFiles st"
    "consumedCalculating (read_data crcf f off st) = consumedCalculating st"
    "walker (read_data crcf f off st) = walker st"
    "limit (read_data crcf f off st) = limit st"
    by simp_all
qed

lemma read_data_finished:
  assumes "finished (read_data crcf f off st)" and "\<not> finished st"
  shows "centralDir (read_data crcf f off st) = centralDir st \<and>
         cache (read_data crcf f off st) = cache st \<and> \<not> skipped st f"
proof -
  have ns: "\<not> skipped st f"
    using assms by (auto simp: read_data_skipped)
  from read_data_streamed[OF ns, of off crcf] obtain e crc0 where
    r: "read_data crcf f off st =
         on_data crcf (cacheHit (cache st) f) f e crc0 (getData f)
           (st\<lparr>opened := opened st + 1, workingFile := True\<rparr>)"
    by blast
  have "\<not> finished (st\<lparr>opened := opened st + 1, workingFile := True\<rparr>)"
    using assms(2) by simp
  from on_data_finished[OF assms(1)[unfolded r] this] ns show ?thesis
    by (simp add: r)
qed

lemma read_data_completed:
  assumes "\<not> finished (read_data crcf f off st)" and "\<not> workingFile st"
  shows "\<not> workingFile (read_data crcf f off st) \<and>
     (\<exists>e. centralDir (read_data crcf f off st) = centralDir st @ [e] \<and> entry_for f off e \<and>
          crc_cd e = expected_crc crcf (cache st) f) \<and>
     dataWritten (read_data crcf f off st) =
       dataWritten st + (if skipped st f then size_src f else length (concat (getData f))) \<and>
     opened (read_data crcf f off st) = (if skipped st f then opened st else opened st + 1) \<and>
     cache (read_data crcf f off st) =
       (if skipped st f then cache st
        else case truthy_sourcePath f of
               None \<Rightarrow> cache st
             | Some p \<Rightarrow> (cache st)(p \<mapsto> \<lparr>ts_cache = ts f,
                                          crc_cache = expected_crc crcf (cache st) f\<rparr>)) \<and>
     (skipped st f \<longrightarrow> pushed (read_data crcf f off st) = pushed st \<and>
        skip (read_data crcf f off st) = skip st - size_src f)"
proof (cases "skipped st f")
  case True
  then have h: "cacheHit (cache st) f" by (simp add: skipped_def)
  from read_data_skipped[OF True, of crcf off] h True assms(2) show ?thesis
    by (simp add: entry_for_def expected_crc_def)
next
  case False
  from read_data_streamed[OF False, of off crcf] obtain e crc0 where
    e: "entry_for f off e"
    and crc0: "crc0 = (if cacheHit (cache st) f then crc_cache (the (cache_lookup (cache st) f))
             else crcf [] None)"
    and r: "read_data crcf f off st =
         on_data crcf (cacheHit (cache st) f) f e crc0 (getData f)
           (st\<lparr>opened := opened st + 1, workingFile := True\<rparr>)"
    by blast
  have x: "(if cacheHit (cache st) f then crc0
            else foldl (\<lambda>c chunk. crcf chunk (Some c)) crc0 (getData f))
           = expected_crc crcf (cache st) f"
    by (simp add: crc0 expected_crc_def checksum_def)
  from on_data_completed_facts[OF assms(1)[unfolded r]] False e show ?thesis
    unfolding r x by (simp split: option.splits)
qed

lemma read_data_unranged:
  assumes "unranged st" and "\<not> finished st" and "wf_source f"
  shows "unranged (read_data crcf f off st) \<and> \<not> finished (read_data crcf f off st) \<and>
         pushed (read_data crcf f off st) = pushed st @ concat (getData f)"
proof (cases "skipped st f")
  case True
  with assms have "size_src f = 0" "concat (getData f) = []"
    by (simp_all add: skipped_def unranged_def wf_source_def)
  with assms True show ?thesis
    by (simp add: read_data_skipped unranged_def)
next
  case False
  from read_data_streamed[OF False, of off crcf] obtain e crc0 where
    r: "read_data crcf f off st =
         on_data crcf (cacheHit (cache st) f) f e crc0 (getData f)
           (st\<lparr>opened := opened st + 1, workingFile := True\<rparr>)"
    by blast
  have u1: "unranged (st\<lparr>opened := opened st + 1, workingFile := True\<rparr>)"
    "\<not> finished (st\<lparr>opened := opened st + 1, workingFile := True\<rparr>)"
    using assms by (simp_all add: unranged_def)
  from on_data_unranged[OF u1] show ?thesis
    unfolding r by simp
qed
lemma crc_empty: "crc32_ieee [] None = 0"
  by (simp add: crc32_ieee_def)

lemma crc_a: "crc32_ieee (utf8 ''a'') None = 0xE8B7BE43"
  by code_simp

lemma do_read_idle: "workingFile st \<or> finished st \<Longrightarrow> do_read crcf st = Inr st"
  by (simp add: do_read_def)

lemma do_read_close:
  "\<not> workingFile st \<Longrightarrow> \<not> finished st \<Longrightarrow> pending st = [] \<Longrightarrow> do_read crcf st = closeArchive st"
  by (simp add: do_read_def next_file_def pending_def)

lemma next_file_fields:
  assumes "next_file st = (Some f, st0)"
  shows "dataWritten st0 = dataWritten st" "numberOfFiles st0 = numberOfFiles st"
    "centralDir st0 = centralDir st" "cache st0 = cache st" "skip st0 = skip st"
    "limit st0 = limit st" "pushed st0 = pushed st" "ended st0 = ended st"
    "opened st0 = opened st" "finished st0 = finished st" "workingFile st0 = workingFile st"
    "pending st = f # pending st0"
  using assms by (auto simp: next_file_def pending_def split: list.splits)

lemma do_read_file:
  assumes "\<not> workingFile st" and "\<not> finished st" and "next_file st = (Some f, st0)"
  shows "do_read crcf st =
     (case push_local_header f (st0\<lparr>numberOfFiles := numberOfFiles st0 + 1\<rparr>) of
        Inl e \<Rightarrow> Inl e
      | Inr st3 \<Rightarrow> if finished st3 then Inr st3
                   else Inr (read_data crcf f (dataWritten st) st3))"
  using assms next_file_fields(1)[OF assms(3)]
  by (auto simp: do_read_def Let_def split: sum.splits)

lemma next_file_pending:
  "pending st = f # rest \<Longrightarrow> \<exists>st0. next_file st = (Some f, st0) \<and> pending st0 = rest"
  by (auto simp: next_file_def pending_def split: list.splits)

lemma reads_idle: "workingFile st \<or> finished st \<Longrightarrow> reads crcf k st = Inr st"
  by (induction k) (simp_all add: do_read_idle)

lemma or_bound16:
  "0 \<le> (x::int) \<Longrightarrow> x < 2 ^ 16 \<Longrightarrow> 0 \<le> y \<Longrightarrow> y < 2 ^ 16 \<Longrightarrow> 0 \<le> x OR y \<and> x OR y < 2 ^ 16"
  by (metis OR_upper or_nonnegative_int_iff)

lemma ts2buf_range:
  assumes "valid_Date d"
  shows "\<exists>t dt. ts2buf d = [2, t, 2, dt] \<and> 0 \<le> t \<and> t < 65536 \<and> 0 \<le> dt \<and> dt < 65536"
proof -
  let ?h = "push_bit 11 (getHours d)" and ?m = "push_bit 5 (getMinutes d)"
    and ?s = "(getSeconds d div 2) AND 0x0F"
  let ?y = "push_bit 9 ((getFullYear d - 1980) AND 0x7F)" and ?mo = "push_bit 5 (getMonth d + 1)"
  have h: "0 \<le> ?h \<and> ?h < 2 ^ 16" using assms by (simp add: valid_Date_def push_bit_eq_mult)
  have m: "0 \<le> ?m \<and> ?m < 2 ^ 16" using assms by (simp add: valid_Date_def push_bit_eq_mult)
  have "?s \<le> 15" by (rule AND_upper2) simp
  then have s: "0 \<le> ?s \<and> ?s < 2 ^ 16" by simp
  have "(getFullYear d - 1980) AND 0x7F \<le> 127" by (rule AND_upper2) simp
  moreover have "0 \<le> (getFullYear d - 1980) AND 0x7F" by simp
  ultimately have y: "0 \<le> ?y \<and> ?y < 2 ^ 16" by (simp add: push_bit_eq_mult)
  have mo: "0 \<le> ?mo \<and> ?mo < 2 ^ 16" using assms by (simp add: valid_Date_def push_bit_eq_mult)
  have dd: "0 \<le> getDate d \<and> getDate d < 2 ^ 16" using assms by (simp add: valid_Date_def)
  have t: "0 \<le> ?h OR ?m OR ?s \<and> ?h OR ?m OR ?s < 2 ^ 16"
    using or_bound16 h m s by (metis or.assoc)
  have dt: "0 \<le> ?y OR ?mo OR getDate d \<and> ?y OR ?mo OR getDate d < 2 ^ 16"
    using or_bound16 y mo dd by (metis or.assoc)
  have "ts2buf d = [2, ?h OR ?m OR ?s, 2, ?y OR ?mo OR getDate d]"
    unfolding ts2buf_def Let_def ..
  with t dt show ?thesis by (intro exI[of _ "?h OR ?m OR ?s"] exI[of _ "?y OR ?mo OR getDate d"]) simp
qed

lemma local_header_succeeds:
  assumes "valid_Date (ts f)" and "length (path f) < 65536"
  shows "\<exists>hdr. buffer (local_header f) = Inr hdr"
proof -
  from ts2buf_range[OF assms(1)] obtain t dt where
    "ts2buf (ts f) = [2, t, 2, dt]" "0 \<le> t" "t < 65536" "0 \<le> dt" "dt < 65536"
    by blast
  with assms(2) show ?thesis
    by (simp add: local_header_def buffer_def write_field_def writeUIntLE_def)
qed

lemma push_local_header_succeeds:
  assumes "valid_Date (ts f)" and "length (path f) < 65536"
  shows "\<exists>st3. push_local_header f st = Inr st3"
  using local_header_succeeds[OF assms]
  by (auto simp: push_local_header_def do_push_array_def)
lemma do_push_skipped:
  "skip st \<noteq> 0 \<Longrightarrow> length c \<le> skip st \<Longrightarrow>
   do_push c st = st\<lparr>dataWritten := dataWritten st + length c, skip := skip st - length c\<rparr>"
  by (simp add: do_push_def Let_def)

lemma do_push_last_bit:
  "skip st = 0 \<Longrightarrow> limit st = Some l \<Longrightarrow> l < length c \<Longrightarrow>
   finished (do_push c st) \<and> ended (do_push c st) \<and> skip (do_push c st) = 0 \<and>
   pushed (do_push c st) = (if ended st then pushed st else pushed st @ take l c)"
  by (simp add: do_push_def Let_def readable_push_def earlyClose_def)

lemma skip_do_push_zero: "skip st = 0 \<Longrightarrow> skip (do_push c st) = 0"
  by (simp add: do_push_def Let_def readable_push_def earlyClose_def split: option.splits)

lemma cacheHit_iff:
  "cacheHit c file \<longleftrightarrow>
     (\<exists>p entry. sourcePath file = Some p \<and> p \<noteq> [] \<and> c p = Some entry \<and>
        getTime (ts_cache entry) = getTime (ts file))"
  by (auto simp: cacheHit_def cache_lookup_def truthy_sourcePath_def split: option.splits)

lemma cache_lookup_Some:
  "sourcePath file = Some p \<Longrightarrow> p \<noteq> [] \<Longrightarrow> cache_lookup c file = c p"
  by (simp add: cache_lookup_def truthy_sourcePath_def)

lemma example_cache_hi: "example_cache ''/srv/hi.txt'' = Some \<lparr>ts_cache = example_date, crc_cache = 0xD8932AAC\<rparr>"
  by (simp add: example_cache_def)

lemma example_cache_empty: "example_cache ''/srv/empty.txt'' = Some \<lparr>ts_cache = example_date, crc_cache = 0\<rparr>"
  by (simp add: example_cache_def)

lemma valid_example_date: "valid_Date example_date"
  by (simp add: valid_Date_def example_date_def)

subsection \<open>A range that ends before it starts\<close>

text \<open>
  C8. \<^verbatim>\<open>applyRange(start, end)\<close> with \<open>end < start\<close> returns normally: the stream is
  finished and ended, no byte was added to the output, every later \<^verbatim>\<open>_read\<close> returns
  at once and leaves the state as it is (so the provider and the replay queue are not
  touched and no source is opened), and a later push delivers nothing.
\<close>

theorem applyRange_reversed:
  assumes "e < s"
  shows "finished (applyRange s e st) \<and> ended (applyRange s e st) \<and>
         pushed (applyRange s e st) = pushed st \<and>
         reads crc32function k (applyRange s e st) = Inr (applyRange s e st) \<and>
         walker (applyRange s e st) = walker st \<and>
         consumedCalculating (applyRange s e st) = consumedCalculating st \<and>
         opened (applyRange s e st) = opened st \<and>
         pushed (do_push chunk (applyRange s e st)) = pushed st"
proof -
  have a: "applyRange s e st = st\<lparr>finished := True, ended := True\<rparr>"
    using assms by (simp add: applyRange_def earlyClose_def)
  have "reads crc32function k (applyRange s e st) = Inr (applyRange s e st)"
    by (rule reads_idle) (simp add: a)
  moreover have "pushed (do_push chunk (applyRange s e st)) = pushed st"
    by (simp add: a do_push_def Let_def readable_push_def earlyClose_def split: option.splits)
  ultimately show ?thesis by (simp add: a)
qed

theorem applyRange_reversed_witness:
  "pushed (applyRange 5 2 (new_QuickZipStream [hi_txt] example_cache)) = [] \<and>
   ended (applyRange 5 2 (new_QuickZipStream [hi_txt] example_cache)) \<and>
   walker (applyRange 5 2 (new_QuickZipStream [hi_txt] example_cache)) = [hi_txt] \<and>
   opened (applyRange 5 2 (new_QuickZipStream [hi_txt] example_cache)) = 0 \<and>
   reads crc32_ieee 3 (applyRange 5 2 (new_QuickZipStream [hi_txt] example_cache))
     = Inr (applyRange 5 2 (new_QuickZipStream [hi_txt] example_cache))"
  using applyRange_reversed[of 2 5 "new_QuickZipStream [hi_txt] example_cache" crc32_ieee 3]
  by (simp add: new_QuickZipStream_def)

subsection \<open>Skipping a cached source\<close>

text \<open>
  C6, amended. \<^verbatim>\<open>_read\<close> takes the next source, pushes its local header and path,
  and returns if that finished the stream. When the stream is still open after these two
  pushes, the cache holds the source's identity with the source's time value, and the skip
  still remaining is at least the source's size, \<^verbatim>\<open>_read\<close> returns without calling
  \<^verbatim>\<open>getData\<close>: no byte is pushed, \<open>dataWritten\<close> advances and \<open>skip\<close> decreases by the
  size, the central directory gets the entry with the cached checksum, and the stream is
  idle again.
\<close>

theorem do_read_cached_skip:
  assumes "\<not> workingFile st" and "\<not> finished st"
    and "next_file st = (Some file, st0)"
    and "push_local_header file (st0\<lparr>numberOfFiles := numberOfFiles st0 + 1\<rparr>) = Inr st3"
    and "sourcePath file = Some p" and "p \<noteq> []"
    and "cache st p = Some entry" and "getTime (ts_cache entry) = getTime (ts file)"
    and "size_src file \<le> skip st3"
    and "\<not> finished st3"
  shows "\<exists>st' e. do_read crc32function st = Inr st' \<and>
           opened st' = opened st \<and> pushed st' = pushed st3 \<and>
           dataWritten st' = dataWritten st3 + size_src file \<and>
           skip st' = skip st3 - size_src file \<and>
           centralDir st' = centralDir st @ [e] \<and> crc_cd e = crc_cache entry \<and>
           entry_for file (dataWritten st) e \<and>
           \<not> workingFile st' \<and> \<not> finished st' \<and> pending st = file # pending st'"
proof -
  note nf = next_file_fields[OF assms(3)]
  note h = push_local_header_Inr[OF assms(4)]
  have fr: "centralDir st3 = centralDir st" "cache st3 = cache st" "opened st3 = opened st"
    "workingFile st3 = workingFile st" "consumedCalculating st3 = consumedCalculating st0"
    "walker st3 = walker st0"
    using h(2) nf by (simp_all add: same_frame_def)
  have hit: "cacheHit (cache st3) file"
    using assms(5-8) fr(2) by (auto simp: cacheHit_iff)
  then have sk: "skipped st3 file" using assms(9) by (simp add: skipped_def)
  have lk: "cache_lookup (cache st3) file = Some entry"
    using assms(5-7) fr(2) by (simp add: cache_lookup_Some)
  have r: "do_read crc32function st = Inr (read_data crc32function file (dataWritten st) st3)"
    using do_read_file[OF assms(1-3), of crc32function] assms(4,10) by simp
  show ?thesis
    unfolding r read_data_skipped[OF sk] lk
    using fr assms(1,10) nf(12)
    by (simp add: entry_for_def pending_def)
qed


theorem do_read_cached_skip_witness:
  "\<exists>st' e. do_read crc32_ieee (applyRange 1000 2000 (new_QuickZipStream [hi_txt] example_cache)) = Inr st' \<and>
      opened st' = 0 \<and> pushed st' = [] \<and> dataWritten st' = 38 \<and> skip st' = 962 \<and>
      centralDir st' = [e] \<and> crc_cd e = 0xD8932AAC \<and> offset_cd e = 0 \<and>
      \<not> workingFile st' \<and> \<not> finished st'"
proof -
  let ?st = "applyRange 1000 2000 (new_QuickZipStream [hi_txt] example_cache)"
  let ?sq = "applyRange 1000 2000 (new_QuickZipStream [] example_cache)"
  have st: "?st = \<lparr>workingFile = False, numberOfFiles = 0, finished = False, centralDir = [],
      dataWritten = 0, consumedCalculating = [], skip = 1000, limit = Some 1001,
      walker = [hi_txt], cache = example_cache, pushed = [], ended = False, opened = 0\<rparr>"
    by (simp add: applyRange_def new_QuickZipStream_def)
  have st0: "?sq = \<lparr>workingFile = False, numberOfFiles = 0, finished = False, centralDir = [],
      dataWritten = 0, consumedCalculating = [], skip = 1000, limit = Some 1001,
      walker = [], cache = example_cache, pushed = [], ended = False, opened = 0\<rparr>"
    by (simp add: applyRange_def new_QuickZipStream_def)
  have nf: "next_file ?st = (Some hi_txt, ?sq)"
    by (simp add: st st0 next_file_def)
  have v: "valid_Date (ts hi_txt)" "length (path hi_txt) < 65536"
    by (simp_all add: hi_txt_def valid_example_date)
  from local_header_succeeds[OF v] obtain hdr where hdr: "buffer (local_header hi_txt) = Inr hdr"
    by blast
  have l: "length hdr = 30"
    using buffer_length[OF hdr] by (simp add: pairs_total_local_header)
  let ?sh = "do_push (utf8 (path hi_txt)) (do_push hdr (?sq\<lparr>numberOfFiles := numberOfFiles ?sq + 1\<rparr>))"
  have p: "push_local_header hi_txt (?sq\<lparr>numberOfFiles := numberOfFiles ?sq + 1\<rparr>) = Inr ?sh"
    by (simp add: push_local_header_def do_push_array_def hdr)
  have s3: "skip ?sh = 964" "\<not> finished ?sh" "pushed ?sh = []" "dataWritten ?sh = 36"
    by (simp_all add: st0 do_push_skipped l hi_txt_def)
  have "\<exists>st' e. do_read crc32_ieee ?st = Inr st' \<and>
           opened st' = opened ?st \<and> pushed st' = pushed ?sh \<and>
           dataWritten st' = dataWritten ?sh + size_src hi_txt \<and>
           skip st' = skip ?sh - size_src hi_txt \<and>
           centralDir st' = centralDir ?st @ [e] \<and>
           crc_cd e = crc_cache \<lparr>ts_cache = example_date, crc_cache = 0xD8932AAC\<rparr> \<and>
           entry_for hi_txt (dataWritten ?st) e \<and>
           \<not> workingFile st' \<and> \<not> finished st' \<and> pending ?st = hi_txt # pending st'"
  proof (rule do_read_cached_skip[OF _ _ nf p, of "''/srv/hi.txt''"])
    show "\<not> workingFile ?st" "\<not> finished ?st" by (simp_all add: st)
    show "sourcePath hi_txt = Some ''/srv/hi.txt''" by (simp add: hi_txt_def)
    show "''/srv/hi.txt'' \<noteq> []" by simp
    show "cache ?st ''/srv/hi.txt'' = Some \<lparr>ts_cache = example_date, crc_cache = 0xD8932AAC\<rparr>"
      by (simp add: st example_cache_hi)
    show "getTime (ts_cache \<lparr>ts_cache = example_date, crc_cache = 0xD8932AAC\<rparr>) = getTime (ts hi_txt)"
      by (simp add: hi_txt_def)
    have "size_src hi_txt = 2" by (simp add: hi_txt_def)
    then show "size_src hi_txt \<le> skip ?sh" unfolding s3 by simp
    show "\<not> finished ?sh" by (rule s3)
  qed
  then show ?thesis
    unfolding s3 st by (auto simp: hi_txt_def entry_for_def)
qed



text \<open>
  Without the condition that the stream is still open the statement fails, for an empty
  source whose checksum is cached when the range ends inside its local header: with
  \<^verbatim>\<open>applyRange(0, 9)\<close> the header push finishes the stream, the skip remaining (0) is at
  least the size (0), and \<^verbatim>\<open>_read\<close> returns at line 117 without recording an entry.
\<close>

theorem do_read_cached_skip_counterexample:
  "sourcePath empty_txt = Some ''/srv/empty.txt'' \<and>
   example_cache ''/srv/empty.txt'' = Some \<lparr>ts_cache = ts empty_txt, crc_cache = 0\<rparr> \<and>
   size_src empty_txt = 0 \<and>
   map_sum id skip (push_local_header empty_txt
      ((applyRange 0 9 (new_QuickZipStream [] example_cache))\<lparr>numberOfFiles := 1\<rparr>)) = Inr 0 \<and>
   map_sum id centralDir
      (do_read crc32_ieee (applyRange 0 9 (new_QuickZipStream [empty_txt] example_cache))) = Inr [] \<and>
   map_sum id finished
      (do_read crc32_ieee (applyRange 0 9 (new_QuickZipStream [empty_txt] example_cache))) = Inr True"
proof -
  let ?s = "applyRange 0 9 (new_QuickZipStream [empty_txt] example_cache)"
  let ?q = "applyRange 0 9 (new_QuickZipStream [] example_cache)"
  let ?r = "?q\<lparr>numberOfFiles := 1\<rparr>"
  have s: "?s = \<lparr>workingFile = False, numberOfFiles = 0, finished = False, centralDir = [],
      dataWritten = 0, consumedCalculating = [], skip = 0, limit = Some 10,
      walker = [empty_txt], cache = example_cache, pushed = [], ended = False, opened = 0\<rparr>"
    by (simp add: applyRange_def new_QuickZipStream_def)
  have r: "?r = \<lparr>workingFile = False, numberOfFiles = 1, finished = False, centralDir = [],
      dataWritten = 0, consumedCalculating = [], skip = 0, limit = Some 10,
      walker = [], cache = example_cache, pushed = [], ended = False, opened = 0\<rparr>"
    by (simp add: applyRange_def new_QuickZipStream_def)
  have nf: "next_file ?s = (Some empty_txt, ?q)"
    by (simp add: applyRange_def new_QuickZipStream_def next_file_def)
  have v: "valid_Date (ts empty_txt)" "length (path empty_txt) < 65536"
    by (simp_all add: empty_txt_def valid_example_date)
  from local_header_succeeds[OF v] obtain hdr where hdr: "buffer (local_header empty_txt) = Inr hdr"
    by blast
  have l: "length hdr = 30"
    using buffer_length[OF hdr] by (simp add: pairs_total_local_header)
  let ?h = "do_push (utf8 (path empty_txt)) (do_push hdr ?r)"
  have p: "push_local_header empty_txt ?r = Inr ?h"
    by (simp add: push_local_header_def do_push_array_def hdr)
  have "skip ?r = 0" "limit ?r = Some 10" "10 < length hdr"
    unfolding r using l by simp_all
  from do_push_last_bit[OF this]
  have f1: "finished (do_push hdr ?r)" "skip (do_push hdr ?r) = 0" by simp_all
  have f: "finished ?h" "skip ?h = 0"
    using f1 by (simp_all add: do_push_finished_mono skip_do_push_zero)
  have "centralDir ?r = []" unfolding r by simp
  then have cd: "centralDir ?h = []" by simp
  have "\<not> workingFile ?s" "\<not> finished ?s" by (simp_all add: s)
  note rd = do_read_file[OF this nf, of crc32_ieee]
  have nq: "?q\<lparr>numberOfFiles := numberOfFiles ?q + 1\<rparr> = ?r"
    by (simp add: applyRange_def new_QuickZipStream_def)
  have d: "do_read crc32_ieee ?s = Inr ?h"
    unfolding rd nq p using f(1) by simp
  show ?thesis
    unfolding d p using f cd
    by (simp add: empty_txt_def example_cache_def)
qed



lemma do_read_file_Inr:
  assumes "\<not> workingFile st" and "\<not> finished st" and "pending st = f # rest"
    and "do_read crcf st = Inr st'"
  obtains st0 st3 where "next_file st = (Some f, st0)" and "pending st0 = rest"
    and "push_local_header f (st0\<lparr>numberOfFiles := numberOfFiles st0 + 1\<rparr>) = Inr st3"
    and "st' = (if finished st3 then st3 else read_data crcf f (dataWritten st) st3)"
proof -
  from next_file_pending[OF assms(3)] obtain st0 where
    nf: "next_file st = (Some f, st0)" and p0: "pending st0 = rest" by blast
  from assms(4) do_read_file[OF assms(1,2) nf, of crcf] obtain st3 where
    "push_local_header f (st0\<lparr>numberOfFiles := numberOfFiles st0 + 1\<rparr>) = Inr st3"
    "st' = (if finished st3 then st3 else read_data crcf f (dataWritten st) st3)"
    by (auto split: sum.splits if_splits)
  with nf p0 that show thesis by blast
qed

lemma pending_frame:
  "consumedCalculating a = consumedCalculating b \<Longrightarrow> walker a = walker b \<Longrightarrow> pending a = pending b"
  by (simp add: pending_def)

lemma do_read_step:
  assumes "\<not> workingFile st" and "\<not> finished st" and "pending st = f # rest"
    and "do_read crcf st = Inr st'"
  shows "pending st' = rest \<and> numberOfFiles st' = numberOfFiles st + 1 \<and> limit st' = limit st \<and>
     (finished st' \<longrightarrow> centralDir st' = centralDir st) \<and>
     (\<not> finished st' \<longrightarrow> \<not> workingFile st' \<and>
        (\<exists>e. centralDir st' = centralDir st @ [e] \<and> entry_for f (dataWritten st) e \<and>
             crc_cd e = expected_crc crcf (cache st) f) \<and>
        (wf_source f \<longrightarrow> dataWritten st' = dataWritten st + 30 + length (path f) + size_src f))"
proof -
  from do_read_file_Inr[OF assms] obtain st0 st3 where
    nf: "next_file st = (Some f, st0)" and p0: "pending st0 = rest"
    and h: "push_local_header f (st0\<lparr>numberOfFiles := numberOfFiles st0 + 1\<rparr>) = Inr st3"
    and st': "st' = (if finished st3 then st3 else read_data crcf f (dataWritten st) st3)"
    by blast
  note n = next_file_fields[OF nf]
  note ph = push_local_header_Inr[OF h]
  have fr: "centralDir st3 = centralDir st" "cache st3 = cache st" "opened st3 = opened st"
    "workingFile st3 = workingFile st" "consumedCalculating st3 = consumedCalculating st0"
    "walker st3 = walker st0" "numberOfFiles st3 = numberOfFiles st + 1" "limit st3 = limit st"
    using ph(2) n by (simp_all add: same_frame_def)
  have d3: "dataWritten st3 = dataWritten st + 30 + length (path f)"
    using ph(1) n by simp
  have p3: "pending st3 = rest"
    using fr(5,6) p0 by (simp add: pending_def)
  show ?thesis
  proof (cases "finished st3")
    case True
    with st' fr p3 show ?thesis by simp
  next
    case False
    then have s: "st' = read_data crcf f (dataWritten st) st3" using st' by simp
    have pr: "pending st' = rest"
      using p3 unfolding s pending_def by simp
    have w3: "\<not> workingFile st3" using fr(4) assms(1) by simp
    show ?thesis
    proof (cases "finished st'")
      case True
      from read_data_finished[OF True[unfolded s] False] True[unfolded s] pr fr show ?thesis
        unfolding s by simp
    next
      case nf': False
      from read_data_completed[OF nf'[unfolded s] w3] pr fr d3 nf' s
      show ?thesis
        by (auto simp: wf_source_def)
    qed
  qed
qed

lemma do_read_step_unranged:
  assumes "\<not> workingFile st" and "\<not> finished st" and "pending st = f # rest"
    and "do_read crcf st = Inr st'" and "unranged st" and "wf_source f"
  shows "unranged st' \<and> \<not> finished st' \<and>
     (\<exists>hdr. buffer (local_header f) = Inr hdr \<and> length hdr = 30 \<and>
            pushed st' = pushed st @ hdr @ utf8 (path f) @ concat (getData f))"
proof -
  from do_read_file_Inr[OF assms(1-4)] obtain st0 st3 where
    nf: "next_file st = (Some f, st0)" and p0: "pending st0 = rest"
    and h: "push_local_header f (st0\<lparr>numberOfFiles := numberOfFiles st0 + 1\<rparr>) = Inr st3"
    and st': "st' = (if finished st3 then st3 else read_data crcf f (dataWritten st) st3)"
    by blast
  note n = next_file_fields[OF nf]
  have u1: "unranged (st0\<lparr>numberOfFiles := numberOfFiles st0 + 1\<rparr>)"
    using assms(5) n by (simp add: unranged_def)
  from push_local_header_Inr(4)[OF h u1] obtain hdr where
    u3: "unranged st3" and f3: "\<not> finished st3"
    and hdr: "buffer (local_header f) = Inr hdr" "length hdr = 30"
    and p3: "pushed st3 = pushed st @ hdr @ utf8 (path f)"
    using n assms(2) by auto
  from read_data_unranged[OF u3 f3 assms(6), of crcf "dataWritten st"] st' f3 p3 hdr
  show ?thesis by auto
qed

lemma do_read_file_succeeds:
  assumes "\<not> workingFile st" and "\<not> finished st" and "pending st = f # rest"
    and "valid_Date (ts f)" and "length (path f) < 65536"
  shows "\<exists>st'. do_read crcf st = Inr st'"
proof -
  from next_file_pending[OF assms(3)] obtain st0 where
    nf: "next_file st = (Some f, st0)" by blast
  from push_local_header_succeeds[OF assms(4,5)] obtain st3 where
    "push_local_header f (st0\<lparr>numberOfFiles := numberOfFiles st0 + 1\<rparr>) = Inr st3" by blast
  then show ?thesis
    unfolding do_read_file[OF assms(1,2) nf] by simp
qed


subsection \<open>The checksum of an entry\<close>





subsection \<open>Offsets under a range\<close>

lemma stream_size_simps [simp]:
  "stream_size [] = 0"
  "stream_size (f # fs) = 30 + length (path f) + size_src f + stream_size fs"
  "stream_size (fs @ gs) = stream_size fs + stream_size gs"
  by (simp_all add: stream_size_def)

lemma entries_match_snoc:
  "entries_match d fs es \<Longrightarrow> entry_for f (d + stream_size fs) e \<Longrightarrow>
     entries_match d (fs @ [f]) (es @ [e])"
  by (induction d fs es rule: entries_match.induct) (simp_all add: add.assoc)

lemma entries_match_length: "entries_match d fs es \<Longrightarrow> length es = length fs"
  by (induction d fs es rule: entries_match.induct) simp_all

lemma entries_match_offsets:
  "entries_match d fs es \<Longrightarrow> i < length fs \<Longrightarrow>
     offset_cd (es ! i) = d + stream_size (take i fs) \<and> size_cd (es ! i) = size_src (fs ! i) \<and>
     pathAsBuffer (es ! i) = utf8 (path (fs ! i)) \<and> version_cd (es ! i) = 20"
proof (induction d fs es arbitrary: i rule: entries_match.induct)
  case (2 d f fs e es)
  then show ?case
    by (cases i) (auto simp: entry_for_def)
qed simp_all

lemma inv_init:
  "inv srcs ((new_QuickZipStream srcs c)\<lparr>skip := s, limit := l\<rparr>)"
  unfolding inv_def
  by (rule exI[of _ "[]"]) (simp add: new_QuickZipStream_def pending_def)

lemma inv_do_read:
  assumes "inv srcs st" and "\<forall>f\<in>set srcs. wf_source f" and "do_read crcf st = Inr st'"
  shows "inv srcs st'"
proof (cases "workingFile st \<or> finished st")
  case True
  with assms(1,3) show ?thesis by (simp add: do_read_idle)
next
  case False
  then have idle: "\<not> workingFile st" "\<not> finished st" by simp_all
  from assms(1) idle obtain dn where dn: "prefix dn srcs" "entries_match 0 dn (centralDir st)"
    "srcs = dn @ pending st" "dataWritten st = stream_size dn" "numberOfFiles st = length dn"
    unfolding inv_def by blast
  show ?thesis
  proof (cases "pending st")
    case Nil
    with assms(3) idle have c: "closeArchive st = Inr st'" by (simp add: do_read_close)
    from closeArchive_effect(2,3)[OF c] dn(1,2) show ?thesis
      unfolding inv_def by auto
  next
    case (Cons f rest)
    note step = do_read_step[OF idle Cons assms(3)]
    have wf: "wf_source f" using assms(2) dn(3) Cons by simp
    show ?thesis
    proof (cases "finished st'")
      case True
      with step dn(1,2) show ?thesis unfolding inv_def by auto
    next
      case nf: False
      with step wf obtain e where e: "centralDir st' = centralDir st @ [e]"
        "entry_for f (dataWritten st) e" and w: "\<not> workingFile st'"
        and d: "dataWritten st' = dataWritten st + 30 + length (path f) + size_src f"
        and p: "pending st' = rest" and n: "numberOfFiles st' = numberOfFiles st + 1"
        by auto
      have m: "entries_match 0 (dn @ [f]) (centralDir st')"
        unfolding e(1) using dn(2) e(2) dn(4) by (intro entries_match_snoc) simp_all
      have "prefix (dn @ [f]) srcs" using dn(3) Cons by (simp add: prefix_def)
      moreover have "srcs = (dn @ [f]) @ pending st'" using dn(3) Cons p by simp
      moreover have "dataWritten st' = stream_size (dn @ [f])" using d dn(4) by simp
      moreover have "numberOfFiles st' = length (dn @ [f])" using n dn(5) by simp
      ultimately show ?thesis
        unfolding inv_def using m w by blast
    qed
  qed
qed

lemma inv_reads:
  "inv srcs st \<Longrightarrow> \<forall>f\<in>set srcs. wf_source f \<Longrightarrow> reads crcf k st = Inr st' \<Longrightarrow> inv srcs st'"
proof (induction k arbitrary: st)
  case 0
  then show ?case by simp
next
  case (Suc k)
  from Suc.prems(3) obtain s1 where r: "do_read crcf st = Inr s1" "reads crcf k s1 = Inr st'"
    by (auto split: sum.splits)
  from Suc.IH[OF inv_do_read[OF Suc.prems(1,2) r(1)] Suc.prems(2) r(2)] show ?case .
qed


lemma prefix_take: "prefix dn srcs \<Longrightarrow> i \<le> length dn \<Longrightarrow> take i dn = take i srcs"
  by (auto simp: prefix_def)

lemma applyRange_update:
  "start \<le> e \<Longrightarrow> applyRange start e st = st\<lparr>skip := start, limit := Some (e - start + 1)\<rparr>"
  by (simp add: applyRange_def)

text \<open>
  C9. \<^verbatim>\<open>_push\<close> adds the full length of the chunk to \<open>dataWritten\<close> whatever
  \<open>skip\<close> and \<open>limit\<close> are, and the cache shortcut adds the full size of the entry.
  So, for well-formed sources and any values of \<open>skip\<close> and \<open>limit\<close> set on a new
  stream (\<open>applyRange_update\<close>: this is what \<^verbatim>\<open>applyRange\<close> does), after any number of calls of \<^verbatim>\<open>_read\<close> the entries recorded so far are those
  of a prefix of the sources, each with the offset its local header has in the unranged
  stream (the total local size of the sources before it); and when the stream is still
  open with no source left, so that the next call writes the directory, \<open>dataWritten\<close>
  (the directory's starting offset) is the local size of all sources.
\<close>

theorem offsets_independent_of_range:
  assumes "\<forall>f\<in>set srcs. wf_source f"
    and "reads crc32function k ((new_QuickZipStream srcs c)\<lparr>skip := s, limit := l\<rparr>) = Inr st"
  shows "dataWritten (do_push chunk st) = dataWritten st + length chunk \<and>
     (skipped st file \<longrightarrow>
        dataWritten (read_data crc32function file off st) = dataWritten st + size_src file) \<and>
     (\<exists>done. prefix done srcs \<and> entries_match 0 done (centralDir st) \<and>
        (\<forall>i < length done. offset_cd (centralDir st ! i) = stream_size (take i srcs))) \<and>
     (\<not> finished st \<and> pending st = [] \<longrightarrow> dataWritten st = stream_size srcs)"
proof -
  have "inv srcs st"
    using inv_reads[OF inv_init assms] .
  then obtain dn where dn: "prefix dn srcs" "entries_match 0 dn (centralDir st)"
    "\<not> finished st \<longrightarrow> srcs = dn @ pending st \<and> dataWritten st = stream_size dn"
    unfolding inv_def by blast
  have o: "\<forall>i < length dn. offset_cd (centralDir st ! i) = stream_size (take i srcs)"
    using entries_match_offsets[OF dn(2)] prefix_take[OF dn(1)] by simp
  have "\<not> finished st \<and> pending st = [] \<longrightarrow> dataWritten st = stream_size srcs"
    using dn(3) by auto
  moreover have "skipped st file \<longrightarrow>
        dataWritten (read_data crc32function file off st) = dataWritten st + size_src file"
    by (simp add: read_data_skipped)
  ultimately show ?thesis using dn(1,2) o by auto
qed

lemma do_read_far_skip:
  assumes "\<not> workingFile st" and "\<not> finished st" and "pending st = f # rest"
    and "valid_Date (ts f)" and "length (path f) < 65536"
    and "30 + length (path f) + size_src f < skip st" and "cacheHit (cache st) f"
  shows "\<exists>st'. do_read crcf st = Inr st' \<and> \<not> finished st' \<and> \<not> workingFile st' \<and>
     skip st' = skip st - (30 + length (path f) + size_src f) \<and> pending st' = rest \<and>
     cache st' = cache st \<and> opened st' = opened st \<and> pushed st' = pushed st \<and>
     limit st' = limit st"
proof -
  from next_file_pending[OF assms(3)] obtain st0 where
    nf: "next_file st = (Some f, st0)" and p0: "pending st0 = rest" by blast
  note n = next_file_fields[OF nf]
  from local_header_succeeds[OF assms(4,5)] obtain hdr where
    hdr: "buffer (local_header f) = Inr hdr" by blast
  have l: "length hdr = 30"
    using buffer_length[OF hdr] by (simp add: pairs_total_local_header)
  let ?a = "st0\<lparr>numberOfFiles := numberOfFiles st0 + 1\<rparr>"
  let ?b = "?a\<lparr>dataWritten := dataWritten ?a + length hdr, skip := skip ?a - length hdr\<rparr>"
  let ?c = "?b\<lparr>dataWritten := dataWritten ?b + length (utf8 (path f)),
                skip := skip ?b - length (utf8 (path f))\<rparr>"
  have b: "do_push hdr ?a = ?b"
    using assms(6) n l by (intro do_push_skipped) simp_all
  have c: "do_push (utf8 (path f)) ?b = ?c"
    using assms(6) n l by (intro do_push_skipped) simp_all
  have p: "push_local_header f ?a = Inr ?c"
    by (simp only: push_local_header_def do_push_array_def hdr sum.case b c)
  have fc: "\<not> finished ?c" using n assms(2) by simp
  have sk: "skipped ?c f"
    using assms(6,7) n l by (simp add: skipped_def)
  have r: "do_read crcf st = Inr (read_data crcf f (dataWritten st) ?c)"
    unfolding do_read_file[OF assms(1,2) nf] p using fc by simp
  show ?thesis
    unfolding r read_data_skipped[OF sk]
    using n assms(1,2) l p0 by (simp add: pending_def)
qed

lemma reads_two:
  "do_read crcf a = Inr b \<Longrightarrow> do_read crcf b = Inr c \<Longrightarrow> reads crcf 2 a = Inr c"
  by (simp add: numeral_2_eq_2)

lemma cacheHit_hi: "cacheHit example_cache hi_txt"
  by (simp add: cacheHit_iff hi_txt_def example_cache_def)

lemma cacheHit_empty: "cacheHit example_cache empty_txt"
  by (simp add: cacheHit_iff empty_txt_def example_cache_def)

theorem offsets_independent_of_range_witness:
  "\<exists>st. reads crc32_ieee 2
          ((new_QuickZipStream [hi_txt, empty_txt] example_cache)\<lparr>skip := 1000, limit := Some 1\<rparr>)
        = Inr st \<and>
     dataWritten st = 77 \<and> map offset_cd (centralDir st) = [0, 38] \<and> pushed st = []"
proof -
  let ?i = "(new_QuickZipStream [hi_txt, empty_txt] example_cache)\<lparr>skip := 1000, limit := Some 1\<rparr>"
  have i: "\<not> workingFile ?i" "\<not> finished ?i" "pending ?i = hi_txt # [empty_txt]"
    "skip ?i = 1000" "cache ?i = example_cache" "pushed ?i = []"
    by (simp_all add: new_QuickZipStream_def pending_def)
  have v: "valid_Date (ts hi_txt)" "length (path hi_txt) < 65536"
    "valid_Date (ts empty_txt)" "length (path empty_txt) < 65536"
    "30 + length (path hi_txt) + size_src hi_txt = 38"
    "30 + length (path empty_txt) + size_src empty_txt = 39"
    "wf_source hi_txt" "wf_source empty_txt"
    by (simp_all add: hi_txt_def empty_txt_def valid_example_date wf_source_def)
  have "30 + length (path hi_txt) + size_src hi_txt < skip ?i" "cacheHit (cache ?i) hi_txt"
    unfolding v i by (simp_all add: cacheHit_hi)
  from do_read_far_skip[OF i(1-3) v(1,2) this, of crc32_ieee] obtain s1 where
    s1: "do_read crc32_ieee ?i = Inr s1" "\<not> finished s1" "\<not> workingFile s1"
    "skip s1 = 962" "pending s1 = [empty_txt]" "cache s1 = example_cache" "pushed s1 = []"
    unfolding v i by auto
  have "30 + length (path empty_txt) + size_src empty_txt < skip s1" "cacheHit (cache s1) empty_txt"
    unfolding v s1 by (simp_all add: cacheHit_empty)
  from do_read_far_skip[OF s1(3,2,5) v(3,4) this, of crc32_ieee] obtain s2 where
    s2: "do_read crc32_ieee s1 = Inr s2" "\<not> finished s2" "pending s2 = []" "pushed s2 = []"
    unfolding v s1 by auto
  have r: "reads crc32_ieee 2 ?i = Inr s2"
    using s1(1) s2(1) by (rule reads_two)
  have wf: "\<forall>f\<in>set [hi_txt, empty_txt]. wf_source f" using v by simp
  from offsets_independent_of_range[OF wf r]
  obtain dn where dn: "prefix dn [hi_txt, empty_txt]" "entries_match 0 dn (centralDir s2)"
    "\<forall>i < length dn. offset_cd (centralDir s2 ! i) = stream_size (take i [hi_txt, empty_txt])"
    and d: "dataWritten s2 = stream_size [hi_txt, empty_txt]"
    using s2(2,3) by blast
  have "inv [hi_txt, empty_txt] s2"
    using inv_reads[OF inv_init wf r] .
  then have m: "entries_match 0 [hi_txt, empty_txt] (centralDir s2)"
    unfolding inv_def using s2(2,3) by auto
  then obtain e1 e2 where cd: "centralDir s2 = [e1, e2]"
    using entries_match_length[OF m] by (auto simp: length_Suc_conv)
  from entries_match_offsets[OF m, of 0] entries_match_offsets[OF m, of 1]
  have "offset_cd e1 = 0" "offset_cd e2 = 38"
    using v(5) by (simp_all add: cd)
  with r d s2(4) cd v(5,6) show ?thesis by simp
qed


subsection \<open>The full drain and the size estimate\<close>

lemma calculateSize_pull_effect:
  "calculateSize_pull n st = (b, st1) \<Longrightarrow>
     st1 = st\<lparr>walker := drop n (walker st),
               consumedCalculating := consumedCalculating st @ take n (walker st)\<rparr> \<and>
     (b \<longleftrightarrow> length (walker st) < n)"
proof (induction n arbitrary: st)
  case 0
  then show ?case by simp
next
  case (Suc n)
  show ?case
  proof (cases "walker st")
    case Nil
    with Suc.prems show ?thesis by auto
  next
    case (Cons v rest)
    with Suc.prems have "calculateSize_pull n
        (st\<lparr>walker := rest, consumedCalculating := consumedCalculating st @ [v]\<rparr>) = (b, st1)"
      by simp
    from Suc.IH[OF this] Cons show ?thesis by simp
  qed
qed

lemma extra_size_entry_for:
  "entry_for f d e \<Longrightarrow>
     extra_size e =
       (let extraLength = (if size_src f > ZIP64_LIMIT then 2 else 0)
                          + (if d > ZIP64_LIMIT then 1 else (0::nat))
        in if extraLength = 0 then 0 else 2+2 + extraLength*8)"
  by (simp add: entry_for_def extra_size_def Let_def)

lemma calculateSize_sum_entries:
  "entries_match d fs es \<Longrightarrow>
     calculateSize_sum fs d acc = (d + stream_size fs, acc + central_size es)"
proof (induction d fs es arbitrary: acc rule: entries_match.induct)
  case (1 d)
  then show ?case by (simp add: central_size_def)
next
  case (2 d f fs e es)
  then have e: "entry_for f d e"
    and m: "entries_match (d + (30 + length (path f) + size_src f)) fs es" by simp_all
  have p: "length (pathAsBuffer e) = length (path f)" using e by (simp add: entry_for_def)
  show ?case
    using "2.IH"[OF m] extra_size_entry_for[OF e] p
    by (simp add: Let_def central_size_def add.assoc)
qed simp_all

lemma closeArchive_unranged_prefix:
  assumes "closeArchive st = Inr st'" and "unranged st"
  shows "prefix (pushed st) (pushed st')"
proof -
  from closeArchive_Inr[OF assms(1)] obtain st1 st2 e where
    r: "central_records (centralDir st) (st\<lparr>finished := True\<rparr>) = Inr st1"
    and z: "if dataWritten st > ZIP64_LIMIT
      then zip64_end (length (centralDir st)) (dataWritten st1 - dataWritten st)
             (dataWritten st) (dataWritten st1) st1 = Inr st2
      else st2 = st1"
    and st': "st' = (do_push e st2)\<lparr>ended := True\<rparr>"
    by blast
  have p0: "unranged (st\<lparr>finished := True\<rparr>)" using assms(2) by (simp add: unranged_def)
  note c = central_records_unranged[OF r p0]
  have "unranged st2 \<and> prefix (pushed st1) (pushed st2)"
  proof (cases "dataWritten st > ZIP64_LIMIT")
    case True
    with z have "zip64_end (length (centralDir st)) (dataWritten st1 - dataWritten st)
             (dataWritten st) (dataWritten st1) st1 = Inr st2" by simp
    from zip64_end_Inr(4)[OF this] c show ?thesis by (auto simp: prefix_def)
  next
    case False
    with z c show ?thesis by simp
  qed
  moreover have "prefix (pushed st) (pushed st1)" using c by simp
  ultimately show ?thesis
    unfolding st' by (auto simp: unranged_do_push prefix_def)
qed

lemma reads_drain_unranged:
  assumes "unranged st" and "\<not> finished st" and "\<not> workingFile st"
    and "\<forall>f\<in>set (pending st). wf_source f"
    and "reads crcf (Suc (length (pending st))) st = Inr st'"
  shows "ended st' \<and> finished st' \<and> pending st' = [] \<and>
     numberOfFiles st' = numberOfFiles st + length (pending st) \<and>
     (\<exists>es dir. centralDir st' = centralDir st @ es \<and>
        entries_match (dataWritten st) (pending st) es \<and>
        pushed st' = pushed st @ concat (map local_bytes (pending st)) @ dir \<and>
        length (concat (map local_bytes (pending st))) = stream_size (pending st) \<and>
        length dir = central_size (centralDir st @ es)
          + (if dataWritten st + stream_size (pending st) > ZIP64_LIMIT then 76 else 0) + 22)"
  using assms
proof (induction "pending st" arbitrary: st)
  case Nil
  then have p: "pending st = []" by simp
  from Nil.prems(5) have c: "closeArchive st = Inr st'"
    using do_read_close[OF Nil.prems(3,2) p, of crcf] p by (simp split: sum.splits)
  note e = closeArchive_effect[OF c]
  from closeArchive_unranged_prefix[OF c Nil.prems(1)] obtain dir where
    dir: "pushed st' = pushed st @ dir" by (auto simp: prefix_def)
  have "length dir = central_size (centralDir st)
          + (if dataWritten st > ZIP64_LIMIT then 76 else 0) + 22"
    using e(6)[OF Nil.prems(1)] dir by simp
  with e dir p show ?case
    unfolding pending_def by simp
next
  case (Cons f rest)
  then have p: "pending st = f # rest" by simp
  from Cons.prems(5) obtain s1 where r1: "do_read crcf st = Inr s1"
    and r2: "reads crcf (Suc (length rest)) s1 = Inr st'"
    unfolding p by (auto split: sum.splits)
  have wf: "wf_source f" "\<forall>g\<in>set rest. wf_source g" using Cons.prems(4) p by simp_all
  note u = do_read_step_unranged[OF Cons.prems(3,2) p r1 Cons.prems(1) wf(1)]
  note s = do_read_step[OF Cons.prems(3,2) p r1]
  from u obtain hdr where u1: "unranged s1" "\<not> finished s1"
    and hdr: "buffer (local_header f) = Inr hdr" "length hdr = 30"
    and p1: "pushed s1 = pushed st @ hdr @ utf8 (path f) @ concat (getData f)"
    by blast
  from s u1(2) wf(1) obtain e where e: "centralDir s1 = centralDir st @ [e]"
    "entry_for f (dataWritten st) e"
    and w1: "\<not> workingFile s1" and pr: "pending s1 = rest"
    and n1: "numberOfFiles s1 = numberOfFiles st + 1"
    and d1: "dataWritten s1 = dataWritten st + 30 + length (path f) + size_src f"
    by auto
  have lb: "pushed s1 = pushed st @ local_bytes f"
    using p1 hdr by (simp add: local_bytes_def)
  have ll: "length (local_bytes f) = 30 + length (path f) + size_src f"
    using hdr wf(1) by (simp add: local_bytes_def wf_source_def)
  have w2: "\<forall>g\<in>set (pending s1). wf_source g" using wf(2) pr by simp
  have "rest = pending s1" using pr by simp
  from Cons.hyps(1)[OF this u1 w1 w2] r2 pr
  obtain es dir where i: "ended st'" "finished st'" "pending st' = []"
    "numberOfFiles st' = numberOfFiles s1 + length rest"
    "centralDir st' = centralDir s1 @ es" "entries_match (dataWritten s1) rest es"
    "pushed st' = pushed s1 @ concat (map local_bytes rest) @ dir"
    "length (concat (map local_bytes rest)) = stream_size rest"
    "length dir = central_size (centralDir s1 @ es)
          + (if dataWritten s1 + stream_size rest > ZIP64_LIMIT then 76 else 0) + 22"
    by auto
  have m: "entries_match (dataWritten st) (f # rest) (e # es)"
    using e(2) i(6) d1 by (simp add: add.assoc)
  have "centralDir st' = centralDir st @ (e # es)" using i(5) e(1) by simp
  moreover have "pushed st' = pushed st @ concat (map local_bytes (f # rest)) @ dir"
    using i(7) lb by simp
  moreover have "length dir = central_size (centralDir st @ (e # es))
          + (if dataWritten st + stream_size (f # rest) > ZIP64_LIMIT then 76 else 0) + 22"
    using i(9) e(1) d1 by (simp add: add.assoc)
  moreover have "length (concat (map local_bytes (f # rest))) = stream_size (f # rest)"
    using i(8) ll by simp
  ultimately show ?case
    using i(1-4) n1 m unfolding p by (intro conjI exI[of _ "e # es"] exI[of _ dir]) simp_all
qed


lemma central_extraData_succeeds:
  assumes "central_extra e = (extra, sz, off)" and "size_cd e < 18446744073709551616"
    and "offset_cd e < 18446744073709551616"
  shows "\<exists>x. central_extraData extra = Inr x"
  using assms
  by (auto simp: central_extra_def central_extraData_def buffer_def write_field_def
        writeUIntLE_def Let_def split: if_splits)

lemma central_record_succeeds:
  assumes "entry_ok e"
  shows "\<exists>st'. central_record e st = Inr st'"
proof -
  obtain extra sz off where ce: "central_extra e = (extra, sz, off)"
    by (cases "central_extra e") auto
  from assms have b: "size_cd e < 18446744073709551616" "offset_cd e < 18446744073709551616"
    by (simp_all add: entry_ok_def)
  from central_extraData_succeeds[OF ce b] obtain x where x: "central_extraData extra = Inr x"
    by blast
  have lx: "length x \<le> 28"
    using central_extraData_Inr(1)[OF ce x] by (simp add: extra_size_def Let_def)
  have s: "0 \<le> sz \<and> sz < 4294967296" "0 \<le> off \<and> off < 4294967296"
    using central_extraData_Inr(3,4)[OF ce x]
    by (auto simp: ZIP64_LIMIT_def split: if_splits)
  from assms have v: "valid_Date (ts_cd e)" by (simp add: entry_ok_def)
  from ts2buf_range[OF v] obtain t dt where
    t: "ts2buf (ts_cd e) = [2, t, 2, dt]" "0 \<le> t" "t < 65536" "0 \<le> dt" "dt < 65536"
    by blast
  have crc: "uint (crc_cd e) < 4294967296"
    using uint_lt2p[of "crc_cd e"] by simp
  have "\<exists>hdr. buffer (central_header e x sz off) = Inr hdr"
    using assms t s lx crc
    by (simp add: central_header_def central_version_def entry_ok_def buffer_def
          write_field_def writeUIntLE_def Let_def)
  then show ?thesis
    using ce x by (auto simp: central_record_def do_push_array_def)
qed

lemma central_records_succeeds:
  "\<forall>e\<in>set es. entry_ok e \<Longrightarrow> \<exists>st'. central_records es st = Inr st'"
proof (induction es arbitrary: st)
  case Nil
  then show ?case by simp
next
  case (Cons e es)
  from central_record_succeeds[of e st] Cons.prems obtain s1 where
    "central_record e st = Inr s1" by auto
  with Cons.IH[of s1] Cons.prems show ?case by auto
qed

lemma closeArchive_succeeds:
  assumes "\<forall>e\<in>set (centralDir st). entry_ok e" and "numberOfFiles st \<le> 65535"
    and "central_size (centralDir st) < 4294967296"
    and "dataWritten st + central_size (centralDir st) < 18446744073709551616"
  shows "\<exists>st'. closeArchive st = Inr st'"
proof -
  from central_records_succeeds[OF assms(1)] obtain s1 where
    r: "central_records (centralDir st) (st\<lparr>finished := True\<rparr>) = Inr s1" by blast
  note c = central_records_Inr[OF r]
  have d1: "dataWritten s1 = dataWritten st + central_size (centralDir st)"
    and f1: "numberOfFiles s1 = numberOfFiles st" "length (centralDir s1) = length (centralDir st)"
    using c by (simp_all add: same_frame_def)
  have cs: "dataWritten s1 - dataWritten st < 4294967296"
    "dataWritten s1 - dataWritten st < 18446744073709551616"
    "dataWritten s1 < 18446744073709551616" "dataWritten st < 18446744073709551616"
    using d1 assms(3,4) by simp_all
  have lo: "dataWritten st < 4294967296" if "\<not> dataWritten st > ZIP64_LIMIT"
    using that by (simp add: ZIP64_LIMIT_def)
  have len: "length (centralDir st) < 18446744073709551616"
  proof -
    have "length es \<le> central_size es" for es
      by (induction es) (simp_all add: central_size_def)
    from this[of "centralDir st"] assms(3) show ?thesis by simp
  qed
  have "\<exists>s2. (if dataWritten st > ZIP64_LIMIT
                       then zip64_end (length (centralDir s1)) (dataWritten s1 - dataWritten st)
                              (dataWritten st) (dataWritten s1) s1
                       else Inr s1) = Inr s2"
    using cs len f1
    by (simp add: zip64_end_def do_push_array_def buffer_def write_field_def writeUIntLE_def)
  then obtain s2 where z: "(if dataWritten st > ZIP64_LIMIT
                       then zip64_end (length (centralDir s1)) (dataWritten s1 - dataWritten st)
                              (dataWritten st) (dataWritten s1) s1
                       else Inr s1) = Inr s2"
    by blast
  have n2: "numberOfFiles s2 = numberOfFiles st"
    using z f1 zip64_end_Inr(2) by (auto simp: same_frame_def split: if_splits)
  have "\<exists>b. buffer (end_of_central_directory (numberOfFiles s2) (dataWritten s1 - dataWritten st)
                (if dataWritten st > ZIP64_LIMIT then 0xFFFFFFFF else int (dataWritten st))) = Inr b"
    using cs(1) lo n2 assms(2)
    by (simp add: end_of_central_directory_def buffer_def write_field_def writeUIntLE_def)
  then show ?thesis
    using r z by (auto simp: closeArchive_def Let_def do_push_array_def)
qed

lemma central_size_append [simp]:
  "central_size (es @ es') = central_size es + central_size es'"
  by (simp add: central_size_def)

lemma calculateSize_sum_closed:
  "calculateSize_sum fs d acc = (d + stream_size fs, acc + directory_size d fs)"
  by (induction fs arbitrary: d acc) (simp_all add: Let_def add.assoc)

lemma entries_match_directory:
  "entries_match d fs es \<Longrightarrow> central_size es = directory_size d fs"
  using calculateSize_sum_entries[of d fs es 0] calculateSize_sum_closed[of fs d 0] by simp

lemma entries_match_ok:
  "entries_match d fs es \<Longrightarrow> \<forall>f\<in>set fs. source_ok f \<Longrightarrow>
   d + stream_size fs < 18446744073709551616 \<Longrightarrow> \<forall>e\<in>set es. entry_ok e"
proof (induction d fs es rule: entries_match.induct)
  case (2 d f fs e es)
  have "entry_ok e"
    using "2.prems" by (simp add: entry_ok_def entry_for_def source_ok_def)
  moreover have "\<forall>x\<in>set es. entry_ok x"
    using "2.prems" by (intro "2.IH") (simp_all add: add.assoc)
  ultimately show ?case by simp
qed simp_all

text \<open>
  One call of \<^verbatim>\<open>_read\<close> per pending source reads them all, whatever their number and
  size; the call after that closes the archive.
\<close>

lemma reads_pending:
  assumes "unranged st" and "\<not> finished st" and "\<not> workingFile st"
    and "\<forall>f\<in>set (pending st). wf_source f \<and> valid_Date (ts f) \<and> length (path f) < 65536"
  shows "\<exists>s es. reads crcf (length (pending st)) st = Inr s \<and>
     unranged s \<and> \<not> finished s \<and> \<not> workingFile s \<and> pending s = [] \<and>
     numberOfFiles s = numberOfFiles st + length (pending st) \<and>
     centralDir s = centralDir st @ es \<and> entries_match (dataWritten st) (pending st) es \<and>
     dataWritten s = dataWritten st + stream_size (pending st)"
  using assms
proof (induction "pending st" arbitrary: st)
  case Nil
  then have p: "pending st = []" by simp
  show ?case
    using Nil.prems(1-3) p by (intro exI[of _ st] exI[of _ "[]"]) simp
next
  case (Cons f rest)
  then have p: "pending st = f # rest" by simp
  have ok: "wf_source f" "valid_Date (ts f)" "length (path f) < 65536"
    "\<forall>g\<in>set rest. wf_source g \<and> valid_Date (ts g) \<and> length (path g) < 65536"
    using Cons.prems(4) p by simp_all
  from do_read_file_succeeds[OF Cons.prems(3,2) p ok(2,3), of crcf] obtain s1 where
    r1: "do_read crcf st = Inr s1" by blast
  note u = do_read_step_unranged[OF Cons.prems(3,2) p r1 Cons.prems(1) ok(1)]
  note s = do_read_step[OF Cons.prems(3,2) p r1]
  from u have u1: "unranged s1" "\<not> finished s1" by simp_all
  from s u1(2) ok(1) obtain e where e: "centralDir s1 = centralDir st @ [e]"
    "entry_for f (dataWritten st) e"
    and w1: "\<not> workingFile s1" and pr: "pending s1 = rest"
    and n1: "numberOfFiles s1 = numberOfFiles st + 1"
    and d1: "dataWritten s1 = dataWritten st + 30 + length (path f) + size_src f"
    by auto
  have "rest = pending s1" using pr by simp
  moreover have "\<forall>g\<in>set (pending s1). wf_source g \<and> valid_Date (ts g) \<and> length (path g) < 65536"
    using ok(4) pr by simp
  ultimately have "\<exists>s es. reads crcf (length (pending s1)) s1 = Inr s \<and>
     unranged s \<and> \<not> finished s \<and> \<not> workingFile s \<and> pending s = [] \<and>
     numberOfFiles s = numberOfFiles s1 + length (pending s1) \<and>
     centralDir s = centralDir s1 @ es \<and> entries_match (dataWritten s1) (pending s1) es \<and>
     dataWritten s = dataWritten s1 + stream_size (pending s1)"
    using u1 w1 by (intro Cons.hyps(1))
  then obtain s es where i: "reads crcf (length rest) s1 = Inr s"
    "unranged s" "\<not> finished s" "\<not> workingFile s" "pending s = []"
    "numberOfFiles s = numberOfFiles s1 + length rest"
    "centralDir s = centralDir s1 @ es" "entries_match (dataWritten s1) rest es"
    "dataWritten s = dataWritten s1 + stream_size rest"
    unfolding pr by blast
  have m: "entries_match (dataWritten st) (f # rest) (e # es)"
    using e(2) i(8) d1 by (simp add: add.assoc)
  have "reads crcf (length (f # rest)) st = Inr s" using r1 i(1) by simp
  moreover have "numberOfFiles s = numberOfFiles st + length (f # rest)" using i(6) n1 by simp
  moreover have "centralDir s = centralDir st @ (e # es)" using i(7) e(1) by simp
  moreover have "dataWritten s = dataWritten st + stream_size (f # rest)" using i(9) d1 by simp
  ultimately show ?case
    unfolding p using i(2-5) m by blast
qed

lemma reads_Suc_end:
  "reads crcf (Suc k) st = (case reads crcf k st of Inl err \<Rightarrow> Inl err | Inr s \<Rightarrow> do_read crcf s)"
proof (induction k arbitrary: st)
  case 0
  show ?case by (simp split: sum.splits)
next
  case (Suc k)
  show ?case
  proof (cases "do_read crcf st")
    case (Inl err)
    then show ?thesis by simp
  next
    case (Inr s1)
    have "reads crcf (Suc (Suc k)) st = reads crcf (Suc k) s1" using Inr by simp
    also have "\<dots> = (case reads crcf k s1 of Inl err \<Rightarrow> Inl err | Inr s \<Rightarrow> do_read crcf s)"
      by (rule Suc.IH)
    also have "\<dots> = (case reads crcf (Suc k) st of Inl err \<Rightarrow> Inl err | Inr s \<Rightarrow> do_read crcf s)"
      using Inr by simp
    finally show ?thesis .
  qed
qed

text \<open>
  The drain of an unranged stream in two steps: the sources, then \<^verbatim>\<open>closeArchive\<close> on
  the state they leave.
\<close>

lemma drain_closeArchive:
  assumes "unranged st" and "\<not> finished st" and "\<not> workingFile st"
    and "\<forall>f\<in>set (pending st). wf_source f \<and> valid_Date (ts f) \<and> length (path f) < 65536"
  shows "\<exists>s es. reads crcf (length (pending st)) st = Inr s \<and>
     drain crcf st = closeArchive s \<and> unranged s \<and>
     numberOfFiles s = numberOfFiles st + length (pending st) \<and>
     centralDir s = centralDir st @ es \<and> entries_match (dataWritten st) (pending st) es \<and>
     dataWritten s = dataWritten st + stream_size (pending st)"
proof -
  from reads_pending[OF assms, of crcf] obtain s es where
    i: "reads crcf (length (pending st)) st = Inr s"
    "unranged s" "\<not> finished s" "\<not> workingFile s" "pending s = []"
    "numberOfFiles s = numberOfFiles st + length (pending st)"
    "centralDir s = centralDir st @ es" "entries_match (dataWritten st) (pending st) es"
    "dataWritten s = dataWritten st + stream_size (pending st)"
    by blast
  have "drain crcf st = closeArchive s"
    unfolding drain_def reads_Suc_end i(1) using do_read_close[OF i(4,3,5), of crcf] by simp
  with i show ?thesis by blast
qed

lemma drain_too_many:
  assumes "unranged st" and "\<not> finished st" and "\<not> workingFile st"
    and "\<forall>f\<in>set (pending st). wf_source f \<and> valid_Date (ts f) \<and> length (path f) < 65536"
    and "numberOfFiles st + length (pending st) > 65535"
  shows "drain crcf st = Inl ERR_OUT_OF_RANGE"
proof -
  from drain_closeArchive[OF assms(1-4), of crcf] obtain s where
    "drain crcf st = closeArchive s"
    "numberOfFiles s = numberOfFiles st + length (pending st)"
    by blast
  with closeArchive_too_many[of s] assms(5) show ?thesis by simp
qed

lemma reads_drain_succeeds:
  assumes "unranged st" and "\<not> finished st" and "\<not> workingFile st"
    and "\<forall>f\<in>set (pending st). wf_source f \<and> source_ok f"
    and "\<forall>e\<in>set (centralDir st). entry_ok e"
    and "numberOfFiles st + length (pending st) \<le> 65535"
    and "central_size (centralDir st) + directory_size (dataWritten st) (pending st) < 4294967296"
    and "dataWritten st + stream_size (pending st) + central_size (centralDir st)
           + directory_size (dataWritten st) (pending st) < 18446744073709551616"
  shows "\<exists>st'. reads crcf (Suc (length (pending st))) st = Inr st'"
proof -
  have v: "\<forall>f\<in>set (pending st). wf_source f \<and> valid_Date (ts f) \<and> length (path f) < 65536"
    using assms(4) by (simp add: source_ok_def)
  from drain_closeArchive[OF assms(1-3) v, of crcf] obtain s es where
    i: "drain crcf st = closeArchive s"
    "numberOfFiles s = numberOfFiles st + length (pending st)"
    "centralDir s = centralDir st @ es" "entries_match (dataWritten st) (pending st) es"
    "dataWritten s = dataWritten st + stream_size (pending st)"
    by blast
  have so: "\<forall>f\<in>set (pending st). source_ok f" using assms(4) by simp
  have "\<forall>e\<in>set es. entry_ok e"
    using assms(8) by (intro entries_match_ok[OF i(4) so]) simp
  then have eo: "\<forall>e\<in>set (centralDir s). entry_ok e"
    using assms(5) i(3) by auto
  have cs: "central_size (centralDir s)
              = central_size (centralDir st) + directory_size (dataWritten st) (pending st)"
    using entries_match_directory[OF i(4)] i(3) by simp
  have "\<exists>st'. closeArchive s = Inr st'"
    using assms(6,7,8) by (intro closeArchive_succeeds[OF eo]) (simp_all add: i(2,5) cs)
  then show ?thesis
    using i(1) by (simp add: drain_def)
qed


lemma new_unranged:
  "unranged (new_QuickZipStream srcs c)" "\<not> finished (new_QuickZipStream srcs c)"
  "\<not> workingFile (new_QuickZipStream srcs c)" "pending (new_QuickZipStream srcs c) = srcs"
  "centralDir (new_QuickZipStream srcs c) = []" "dataWritten (new_QuickZipStream srcs c) = 0"
  "pushed (new_QuickZipStream srcs c) = []" "numberOfFiles (new_QuickZipStream srcs c) = 0"
  by (simp_all add: new_QuickZipStream_def unranged_def pending_def)

lemma calculateSize_state:
  assumes "calculateSize howLong st = (r, st1)"
  shows "st1 = st\<lparr>walker := drop howLong (walker st),
               consumedCalculating := consumedCalculating st @ take howLong (walker st)\<rparr>"
    and "r = None \<longleftrightarrow> howLong \<le> length (walker st)"
    and "r \<noteq> None \<Longrightarrow>
           r = Some (let (offset, centralDirSize) = calculateSize_sum (consumedCalculating st1) 0 0
                     in offset + (centralDirSize + (if offset > ZIP64_LIMIT then 76 else 0) + 22))"
proof -
  obtain b s where p: "calculateSize_pull howLong st = (b, s)"
    by (cases "calculateSize_pull howLong st") auto
  note e = calculateSize_pull_effect[OF p]
  have s1: "st1 = s" using assms p
    by (auto simp: calculateSize_def Let_def split: bool.splits prod.splits)
  show "st1 = st\<lparr>walker := drop howLong (walker st),
               consumedCalculating := consumedCalculating st @ take howLong (walker st)\<rparr>"
    using s1 e by simp
  show "r = None \<longleftrightarrow> howLong \<le> length (walker st)"
    using assms p e
    by (auto simp: calculateSize_def Let_def split: bool.splits prod.splits)
  show "r \<noteq> None \<Longrightarrow>
           r = Some (let (offset, centralDirSize) = calculateSize_sum (consumedCalculating st1) 0 0
                     in offset + (centralDirSize + (if offset > ZIP64_LIMIT then 76 else 0) + 22))"
    using assms p s1
    by (auto simp: calculateSize_def Let_def split: bool.splits prod.splits)
qed

lemma wf_ok_examples:
  "wf_source hi_txt" "wf_source empty_txt" "source_ok hi_txt" "source_ok empty_txt"
  by (simp_all add: wf_source_def source_ok_def hi_txt_def empty_txt_def valid_example_date
        extAttr_of_def)

lemma wf_ok_big_bin: "wf_source big_bin" "source_ok big_bin"
  by (simp_all add: wf_source_def source_ok_def big_bin_def valid_example_date extAttr_of_def)

lemma stream_size_replicate:
  "stream_size (replicate k f) = k * (30 + length (path f) + size_src f)"
  by (induction k) simp_all

lemma directory_size_replicate:
  "size_src f \<le> ZIP64_LIMIT \<Longrightarrow> d + k * (30 + length (path f) + size_src f) \<le> ZIP64_LIMIT \<Longrightarrow>
     directory_size d (replicate k f) = k * (46 + length (path f))"
proof (induction k arbitrary: d)
  case 0
  show ?case by simp
next
  case (Suc k)
  have "directory_size (d + (30 + length (path f) + size_src f)) (replicate k f)
          = k * (46 + length (path f))"
    using Suc.prems by (intro Suc.IH) simp_all
  moreover have "d \<le> ZIP64_LIMIT" using Suc.prems(2) by simp
  ultimately show ?case using Suc.prems(1) by simp
qed

text \<open>
  \<^verbatim>\<open>calculateSize\<close> on a new stream, with a deadline the provider does not outlast.
\<close>

lemma calculateSize_new:
  assumes "length srcs < howLong"
  shows "calculateSize howLong (new_QuickZipStream srcs c) =
     (Some (stream_size srcs + directory_size 0 srcs
              + (if stream_size srcs > ZIP64_LIMIT then 76 else 0) + 22),
      (new_QuickZipStream srcs c)\<lparr>walker := [], consumedCalculating := srcs\<rparr>)"
proof -
  let ?s = "new_QuickZipStream srcs c"
  obtain r st1 where c0: "calculateSize howLong ?s = (r, st1)"
    by (cases "calculateSize howLong ?s") auto
  note cs = calculateSize_state[OF c0]
  have w: "walker ?s = srcs" "consumedCalculating ?s = []"
    by (simp_all add: new_QuickZipStream_def)
  have st1: "st1 = ?s\<lparr>walker := [], consumedCalculating := srcs\<rparr>"
    using cs(1) assms w by simp
  have q: "consumedCalculating st1 = srcs" unfolding st1 by simp
  have "r \<noteq> None" using cs(2) w assms by simp
  from cs(3)[OF this]
  have "r = Some (stream_size srcs + directory_size 0 srcs
              + (if stream_size srcs > ZIP64_LIMIT then 76 else 0) + 22)"
    unfolding q by (simp add: calculateSize_sum_closed)
  with c0 st1 show ?thesis by simp
qed

text \<open>
  C1. The specification says that, for any source sequence, the number \<^verbatim>\<open>calculateSize\<close>
  returns when it exhausts the provider within its budget is the length of the fully
  drained, unranged output. \<^verbatim>\<open>calculateSize\<close> only adds sizes up, while the drain packs
  the number of files into 2-byte fields, the size of the central directory into a 4-byte
  field and every path length into a 2-byte field, and faults when a value does not fit:
  for 65536 empty sources \<^verbatim>\<open>calculateSize\<close> returns 6160406 and the drain stops in
  \<^verbatim>\<open>closeArchive\<close> with \<^verbatim>\<open>ERR_OUT_OF_RANGE\<close>, so no output of that length exists.

  Amended: for at most 65535 well-formed sources whose fields the packer accepts (a valid
  timestamp, a path of at most 65535 bytes, external attributes within 32 bits), a central
  directory below 4 GiB and an archive of at most \<open>2\<^sup>5\<^sup>3 - 1\<close> bytes,
  \<^verbatim>\<open>calculateSize\<close> with a deadline the provider does not outlast returns a number, the
  full drain that follows on the same stream completes and ends the stream, and the number
  is the length of the output of that drain.
\<close>

theorem calculateSize_exact:
  assumes "\<forall>f\<in>set srcs. wf_source f \<and> source_ok f"
    and "length srcs \<le> 65535"
    and "directory_size 0 srcs < 4294967296"
    and "stream_size srcs + directory_size 0 srcs + 98 \<le> 9007199254740991"
    and "length srcs < howLong"
  shows "\<exists>n st1 st2. calculateSize howLong (new_QuickZipStream srcs c) = (Some n, st1) \<and>
     drain crc32function st1 = Inr st2 \<and> length (pushed st2) = n \<and> ended st2"
proof -
  define st1 where "st1 = (new_QuickZipStream srcs c)\<lparr>walker := [], consumedCalculating := srcs\<rparr>"
  define n where "n = stream_size srcs + directory_size 0 srcs
                        + (if stream_size srcs > ZIP64_LIMIT then 76 else 0) + 22"
  have cn: "calculateSize howLong (new_QuickZipStream srcs c) = (Some n, st1)"
    unfolding st1_def n_def by (rule calculateSize_new[OF assms(5)])
  have i: "unranged st1" "\<not> finished st1" "\<not> workingFile st1" "pending st1 = srcs"
    "centralDir st1 = []" "dataWritten st1 = 0" "pushed st1 = []" "numberOfFiles st1 = 0"
    unfolding st1_def by (simp_all add: new_QuickZipStream_def unranged_def pending_def)
  have "\<exists>st2. reads crc32function (Suc (length (pending st1))) st1 = Inr st2"
    using assms(1-4)
    by (intro reads_drain_succeeds[OF i(1-3)]) (simp_all add: i central_size_def)
  then obtain st2 where r: "reads crc32function (Suc (length (pending st1))) st1 = Inr st2"
    by blast
  have wf: "\<forall>f\<in>set (pending st1). wf_source f" using assms(1) i(4) by simp
  from reads_drain_unranged[OF i(1-3) wf r] obtain es dir where
    d: "ended st2" "entries_match 0 srcs es"
    "pushed st2 = concat (map local_bytes srcs) @ dir"
    "length (concat (map local_bytes srcs)) = stream_size srcs"
    "length dir = central_size es + (if stream_size srcs > ZIP64_LIMIT then 76 else 0) + 22"
    unfolding i by auto
  have "length (pushed st2) = n"
    using d(3,4,5) entries_match_directory[OF d(2)] by (simp add: n_def)
  moreover have "drain crc32function st1 = Inr st2" using r by (simp add: drain_def)
  ultimately show ?thesis using cn d(1) by blast
qed

theorem calculateSize_exact_witness:
  "\<exists>st1 st2. calculateSize 2 (new_QuickZipStream [big_bin] Map.empty) = (Some 3000000208, st1) \<and>
     drain crc32_ieee st1 = Inr st2 \<and> length (pushed st2) = 3000000208 \<and> ended st2"
proof -
  have s: "stream_size [big_bin] = 3000000037" "directory_size 0 [big_bin] = 73"
    by (simp_all add: big_bin_def ZIP64_LIMIT_def)
  have "\<exists>n st1 st2. calculateSize 2 (new_QuickZipStream [big_bin] Map.empty) = (Some n, st1) \<and>
     drain crc32_ieee st1 = Inr st2 \<and> length (pushed st2) = n \<and> ended st2"
    by (rule calculateSize_exact)
       (simp_all add: wf_ok_big_bin s del: directory_size.simps stream_size_simps)
  moreover have "calculateSize 2 (new_QuickZipStream [big_bin] Map.empty) =
     (Some 3000000208,
      (new_QuickZipStream [big_bin] Map.empty)\<lparr>walker := [], consumedCalculating := [big_bin]\<rparr>)"
    using calculateSize_new[of "[big_bin]" 2 Map.empty]
    by (simp add: s ZIP64_LIMIT_def del: directory_size.simps stream_size_simps)
  ultimately show ?thesis by auto
qed

text \<open>
  Without the bound on the number of sources the statement fails: for 65536 empty
  sources, each well formed, \<^verbatim>\<open>calculateSize\<close> returns 6160406 (65536 local headers
  and central records with a 9-byte path, and the 22-byte end record), and the drain of the
  same stream faults when \<^verbatim>\<open>closeArchive\<close> packs the count 65536 into 2 bytes.
\<close>

theorem calculateSize_exact_counterexample:
  "wf_source empty_txt \<and>
   fst (calculateSize 65537 (new_QuickZipStream (replicate 65536 empty_txt) Map.empty))
     = Some 6160406 \<and>
   drain crc32_ieee
     (snd (calculateSize 65537 (new_QuickZipStream (replicate 65536 empty_txt) Map.empty)))
     = Inl ERR_OUT_OF_RANGE"
proof -
  let ?srcs = "replicate 65536 empty_txt"
  define st1 where
    "st1 = (new_QuickZipStream ?srcs Map.empty)\<lparr>walker := [], consumedCalculating := ?srcs\<rparr>"
  have e: "size_src empty_txt = 0" "length (path empty_txt) = 9"
    by (simp_all add: empty_txt_def)
  have ss: "stream_size ?srcs = 2555904"
    by (simp add: stream_size_replicate e)
  have ds: "directory_size 0 ?srcs = 3604480"
    by (subst directory_size_replicate) (simp_all add: e ZIP64_LIMIT_def)
  have "calculateSize 65537 (new_QuickZipStream ?srcs Map.empty) =
     (Some (stream_size ?srcs + directory_size 0 ?srcs
              + (if stream_size ?srcs > ZIP64_LIMIT then 76 else 0) + 22), st1)"
    unfolding st1_def by (rule calculateSize_new) simp
  then have cn: "calculateSize 65537 (new_QuickZipStream ?srcs Map.empty) = (Some 6160406, st1)"
    unfolding ss ds by (simp add: ZIP64_LIMIT_def)
  have i: "unranged st1" "\<not> finished st1" "\<not> workingFile st1" "pending st1 = ?srcs"
    "numberOfFiles st1 = 0"
    unfolding st1_def by (simp_all add: new_QuickZipStream_def unranged_def pending_def)
  have v: "valid_Date (ts empty_txt)" "length (path empty_txt) < 65536"
    using wf_ok_examples(4) by (simp_all add: source_ok_def)
  have "drain crc32_ieee st1 = Inl ERR_OUT_OF_RANGE"
    by (rule drain_too_many[OF i(1-3)]) (simp_all add: i wf_ok_examples v)
  with cn wf_ok_examples(2) show ?thesis by simp
qed


subsection \<open>The end of the central directory\<close>

text \<open>
  C10. \<^verbatim>\<open>closeArchive\<close> writes \<^verbatim>\<open>numberOfFiles\<close> into the two 2-byte count fields of
  the classic end record. With more than 65535 files the packer throws
  \<^verbatim>\<open>ERR_OUT_OF_RANGE\<close> and no end record is written. With at most 65535 files, on a
  stream without a range whose entries the packer accepts, with a central directory below
  4 GiB and an archive below \<open>2\<^sup>6\<^sup>4\<close> bytes, \<^verbatim>\<open>closeArchive\<close> returns. Whenever it
  returns, the output is the central directory records, then the zip64 end record and
  locator (76 bytes) exactly when the directory starts beyond \<open>ZIP64_LIMIT\<close>, whatever the
  number of files, then the 22-byte end record whose count fields hold the exact number
  of files.
\<close>

theorem closeArchive_entry_count:
  "(numberOfFiles st > 65535 \<longrightarrow> closeArchive st = Inl ERR_OUT_OF_RANGE) \<and>
   (unranged st \<and> (\<forall>e\<in>set (centralDir st). entry_ok e) \<and> numberOfFiles st \<le> 65535 \<and>
    central_size (centralDir st) < 4294967296 \<and>
    dataWritten st + central_size (centralDir st) < 18446744073709551616 \<longrightarrow>
      (\<exists>s p e. closeArchive st = Inr s \<and> pushed s = p @ e \<and> length e = 22 \<and>
         le_decode (take 2 (drop 8 e)) = int (numberOfFiles st) \<and>
         le_decode (take 2 (drop 10 e)) = int (numberOfFiles st))) \<and>
   (closeArchive st = Inr st' \<and> unranged st \<longrightarrow>
      numberOfFiles st \<le> 65535 \<and>
      (\<exists>st1 z e. central_records (centralDir st) (st\<lparr>finished := True\<rparr>) = Inr st1 \<and>
         pushed st' = pushed st1 @ z @ e \<and>
         length e = 22 \<and> le_decode (take 4 e) = 0x06054b50 \<and>
         le_decode (take 2 (drop 8 e)) = int (numberOfFiles st) \<and>
         le_decode (take 2 (drop 10 e)) = int (numberOfFiles st) \<and>
         (z = [] \<longleftrightarrow> dataWritten st \<le> ZIP64_LIMIT) \<and>
         (z \<noteq> [] \<longrightarrow> length z = 76 \<and> le_decode (take 4 z) = 0x06064b50 \<and>
            le_decode (take 8 (drop 24 z)) = int (length (centralDir st)) \<and>
            le_decode (take 4 (drop 56 z)) = 0x07064b50)))"
proof -
  have counts: "numberOfFiles st \<le> 65535 \<and>
      (\<exists>st1 z e. central_records (centralDir st) (st\<lparr>finished := True\<rparr>) = Inr st1 \<and>
         pushed s = pushed st1 @ z @ e \<and>
         length e = 22 \<and> le_decode (take 4 e) = 0x06054b50 \<and>
         le_decode (take 2 (drop 8 e)) = int (numberOfFiles st) \<and>
         le_decode (take 2 (drop 10 e)) = int (numberOfFiles st) \<and>
         (z = [] \<longleftrightarrow> dataWritten st \<le> ZIP64_LIMIT) \<and>
         (z \<noteq> [] \<longrightarrow> length z = 76 \<and> le_decode (take 4 z) = 0x06064b50 \<and>
            le_decode (take 8 (drop 24 z)) = int (length (centralDir st)) \<and>
            le_decode (take 4 (drop 56 z)) = 0x07064b50))"
    if a: "closeArchive st = Inr s" and u: "unranged st" for s
  proof -
    from a closeArchive_Inr obtain st1 st2 e where
      r: "central_records (centralDir st) (st\<lparr>finished := True\<rparr>) = Inr st1"
      and z: "if dataWritten st > ZIP64_LIMIT
        then zip64_end (length (centralDir st)) (dataWritten st1 - dataWritten st)
               (dataWritten st) (dataWritten st1) st1 = Inr st2
        else st2 = st1"
      and e: "buffer (end_of_central_directory (numberOfFiles st) (dataWritten st1 - dataWritten st)
                 (if dataWritten st > ZIP64_LIMIT then 0xFFFFFFFF else int (dataWritten st))) = Inr e"
      and s: "s = (do_push e st2)\<lparr>ended := True\<rparr>"
      by blast
    from u have p0: "unranged (st\<lparr>finished := True\<rparr>)" by (simp add: unranged_def)
    note c = central_records_unranged[OF r p0]
    have "\<exists>z. unranged st2 \<and> pushed st2 = pushed st1 @ z \<and> (z = [] \<longleftrightarrow> dataWritten st \<le> ZIP64_LIMIT) \<and>
           (z \<noteq> [] \<longrightarrow> length z = 76 \<and> le_decode (take 4 z) = 0x06064b50 \<and>
              le_decode (take 8 (drop 24 z)) = int (length (centralDir st)) \<and>
              le_decode (take 4 (drop 56 z)) = 0x07064b50)"
    proof (cases "dataWritten st > ZIP64_LIMIT")
      case True
      with z have "zip64_end (length (centralDir st)) (dataWritten st1 - dataWritten st)
               (dataWritten st) (dataWritten st1) st1 = Inr st2" by simp
      from zip64_end_Inr(4)[OF this] c True show ?thesis by fastforce
    next
      case False
      with z c show ?thesis by simp
    qed
    then obtain z where z': "unranged st2" "pushed st2 = pushed st1 @ z"
      "z = [] \<longleftrightarrow> dataWritten st \<le> ZIP64_LIMIT"
      "z \<noteq> [] \<longrightarrow> length z = 76 \<and> le_decode (take 4 z) = 0x06064b50 \<and>
              le_decode (take 8 (drop 24 z)) = int (length (centralDir st)) \<and>
              le_decode (take 4 (drop 56 z)) = 0x07064b50"
      by blast
    have "pushed s = pushed st1 @ z @ e"
      using s z'(1,2) by (simp add: unranged_do_push)
    with r z'(3,4) buffer_eocd[OF e]
    have "\<exists>st1 z e. central_records (centralDir st) (st\<lparr>finished := True\<rparr>) = Inr st1 \<and>
           pushed s = pushed st1 @ z @ e \<and>
           length e = 22 \<and> le_decode (take 4 e) = 0x06054b50 \<and>
           le_decode (take 2 (drop 8 e)) = int (numberOfFiles st) \<and>
           le_decode (take 2 (drop 10 e)) = int (numberOfFiles st) \<and>
           (z = [] \<longleftrightarrow> dataWritten st \<le> ZIP64_LIMIT) \<and>
           (z \<noteq> [] \<longrightarrow> length z = 76 \<and> le_decode (take 4 z) = 0x06064b50 \<and>
              le_decode (take 8 (drop 24 z)) = int (length (centralDir st)) \<and>
              le_decode (take 4 (drop 56 z)) = 0x07064b50)"
      by blast
    moreover have "numberOfFiles st \<le> 65535" using closeArchive_effect(5)[OF a] .
    ultimately show ?thesis by simp
  qed
  have many: "closeArchive st = Inl ERR_OUT_OF_RANGE" if "numberOfFiles st > 65535"
    using that by (rule closeArchive_too_many)
  have returns: "\<exists>s p e. closeArchive st = Inr s \<and> pushed s = p @ e \<and> length e = 22 \<and>
         le_decode (take 2 (drop 8 e)) = int (numberOfFiles st) \<and>
         le_decode (take 2 (drop 10 e)) = int (numberOfFiles st)"
    if u: "unranged st" and eo: "\<forall>e\<in>set (centralDir st). entry_ok e"
      and n: "numberOfFiles st \<le> 65535" and cs: "central_size (centralDir st) < 4294967296"
      and dw: "dataWritten st + central_size (centralDir st) < 18446744073709551616"
  proof -
    from closeArchive_succeeds[OF eo n cs dw] obtain s where s: "closeArchive st = Inr s"
      by blast
    from counts[OF s u] obtain p z e where
      q: "pushed s = p @ z @ e" "length e = 22"
      "le_decode (take 2 (drop 8 e)) = int (numberOfFiles st)"
      "le_decode (take 2 (drop 10 e)) = int (numberOfFiles st)"
      by blast
    from q(1) have "pushed s = (p @ z) @ e" by simp
    with s q(2-4) show ?thesis by blast
  qed
  show ?thesis
    using many returns counts[of st'] by blast
qed

theorem closeArchive_entry_count_witness:
  "(\<exists>s s' p e. reads crc32_ieee 2 (new_QuickZipStream [hi_txt, empty_txt] example_cache) = Inr s \<and>
      numberOfFiles s = 2 \<and> closeArchive s = Inr s' \<and> pushed s' = p @ e \<and> length e = 22 \<and>
      le_decode (take 2 (drop 8 e)) = 2 \<and> le_decode (take 2 (drop 10 e)) = 2) \<and>
   (\<exists>t. reads crc32_ieee 65536 (new_QuickZipStream (replicate 65536 empty_txt) Map.empty) = Inr t \<and>
      numberOfFiles t = 65536 \<and> closeArchive t = Inl ERR_OUT_OF_RANGE)"
proof
  let ?n = "new_QuickZipStream [hi_txt, empty_txt] example_cache"
  have v: "\<forall>f\<in>set (pending ?n). wf_source f \<and> valid_Date (ts f) \<and> length (path f) < 65536"
    using wf_ok_examples by (simp add: new_unranged source_ok_def)
  from reads_pending[OF new_unranged(1-3) v, of crc32_ieee] obtain s es where
    i: "reads crc32_ieee (length [hi_txt, empty_txt]) ?n = Inr s" "unranged s"
    "numberOfFiles s = length [hi_txt, empty_txt]" "centralDir s = es"
    "entries_match 0 [hi_txt, empty_txt] es" "dataWritten s = stream_size [hi_txt, empty_txt]"
    unfolding new_unranged by auto
  have b: "directory_size 0 [hi_txt, empty_txt] = 107" "stream_size [hi_txt, empty_txt] = 77"
    by (simp_all add: hi_txt_def empty_txt_def ZIP64_LIMIT_def)
  have r: "reads crc32_ieee 2 ?n = Inr s" using i(1) by (simp add: numeral_2_eq_2)
  have n: "numberOfFiles s = 2" using i(3) by simp
  have eo: "\<forall>e\<in>set (centralDir s). entry_ok e"
    unfolding i(4) by (rule entries_match_ok[OF i(5)]) (simp_all add: wf_ok_examples b(2) del: stream_size_simps)
  have cs: "central_size (centralDir s) = 107"
    using entries_match_directory[OF i(5)] i(4) b(1) by simp
  have dw: "dataWritten s = 77" using i(6) b(2) by simp
  from closeArchive_entry_count[of s] i(2) eo n cs dw
  have "\<exists>s' p e. closeArchive s = Inr s' \<and> pushed s' = p @ e \<and> length e = 22 \<and>
      le_decode (take 2 (drop 8 e)) = 2 \<and> le_decode (take 2 (drop 10 e)) = 2"
    by simp
  with r n show "\<exists>s s' p e. reads crc32_ieee 2 ?n = Inr s \<and>
      numberOfFiles s = 2 \<and> closeArchive s = Inr s' \<and> pushed s' = p @ e \<and> length e = 22 \<and>
      le_decode (take 2 (drop 8 e)) = 2 \<and> le_decode (take 2 (drop 10 e)) = 2"
    by blast
next
  let ?m = "new_QuickZipStream (replicate 65536 empty_txt) Map.empty"
  have v: "\<forall>f\<in>set (pending ?m). wf_source f \<and> valid_Date (ts f) \<and> length (path f) < 65536"
    using wf_ok_examples by (simp add: new_unranged source_ok_def)
  from reads_pending[OF new_unranged(1-3) v, of crc32_ieee] obtain t where
    j: "reads crc32_ieee 65536 ?m = Inr t" "numberOfFiles t = 65536"
    unfolding new_unranged by auto
  from closeArchive_entry_count[of t] j(2)
  have "closeArchive t = Inl ERR_OUT_OF_RANGE" by simp
  with j show "\<exists>t. reads crc32_ieee 65536 ?m = Inr t \<and>
      numberOfFiles t = 65536 \<and> closeArchive t = Inl ERR_OUT_OF_RANGE"
    by blast
qed


subsection \<open>The replay queue\<close>

lemma next_file_queue_first:
  "consumedCalculating st = f # rest \<Longrightarrow>
     next_file st = (Some f, st\<lparr>consumedCalculating := rest\<rparr>)"
  by (simp add: next_file_def)

text \<open>
  C3. \<^verbatim>\<open>calculateSize\<close> on a new stream returns \<^verbatim>\<open>NaN\<close> exactly when its deadline
  comes before it has seen the provider exhausted; whatever the deadline, the sources it
  pulled are in \<open>consumedCalculating\<close>, in order, with the rest still in the provider, and
  \<^verbatim>\<open>_read\<close> takes from \<open>consumedCalculating\<close> first. A full drain of the stream
  afterwards, for well-formed sources, has read every source once, in the provider's
  order: the count is the number of sources, the central directory has one entry per
  source, and the output is the local header, path and data of each source in turn,
  followed by the directory.
\<close>

theorem calculateSize_replay:
  assumes "calculateSize howLong (new_QuickZipStream srcs c) = (r, st1)"
  shows "(r = None \<longleftrightarrow> howLong \<le> length srcs) \<and>
     consumedCalculating st1 = take howLong srcs \<and> walker st1 = drop howLong srcs \<and>
     (\<forall>f rest. consumedCalculating st1 = f # rest \<longrightarrow>
        next_file st1 = (Some f, st1\<lparr>consumedCalculating := rest\<rparr>)) \<and>
     ((\<forall>f\<in>set srcs. wf_source f) \<and> drain crc32function st1 = Inr st2 \<longrightarrow>
        ended st2 \<and> pending st2 = [] \<and> numberOfFiles st2 = length srcs \<and>
        entries_match 0 srcs (centralDir st2) \<and>
        (\<exists>dir. pushed st2 = concat (map local_bytes srcs) @ dir \<and>
           length dir = central_size (centralDir st2)
             + (if stream_size srcs > ZIP64_LIMIT then 76 else 0) + 22))"
proof -
  let ?s = "new_QuickZipStream srcs c"
  note cs = calculateSize_state[OF assms]
  have w: "walker ?s = srcs" "consumedCalculating ?s = []"
    by (simp_all add: new_QuickZipStream_def)
  have st1: "st1 = ?s\<lparr>walker := drop howLong srcs, consumedCalculating := take howLong srcs\<rparr>"
    using cs(1) w by simp
  have i: "unranged st1" "\<not> finished st1" "\<not> workingFile st1" "pending st1 = srcs"
    "centralDir st1 = []" "dataWritten st1 = 0" "pushed st1 = []" "numberOfFiles st1 = 0"
    "consumedCalculating st1 = take howLong srcs" "walker st1 = drop howLong srcs"
    unfolding st1 by (simp_all add: new_QuickZipStream_def unranged_def pending_def)
  have d: "ended st2 \<and> pending st2 = [] \<and> numberOfFiles st2 = length srcs \<and>
        entries_match 0 srcs (centralDir st2) \<and>
        (\<exists>dir. pushed st2 = concat (map local_bytes srcs) @ dir \<and>
           length dir = central_size (centralDir st2)
             + (if stream_size srcs > ZIP64_LIMIT then 76 else 0) + 22)"
    if wf: "\<forall>f\<in>set srcs. wf_source f" and dr: "drain crc32function st1 = Inr st2"
  proof -
    have wf': "\<forall>f\<in>set (pending st1). wf_source f" using wf i(4) by simp
    have r: "reads crc32function (Suc (length (pending st1))) st1 = Inr st2"
      using dr by (simp add: drain_def)
    from reads_drain_unranged[OF i(1-3) wf' r] show ?thesis
      unfolding i by auto
  qed
  show ?thesis
    using cs(2) w i(9,10) d by (auto simp: next_file_queue_first)
qed

lemma calculateSize_example_expired:
  "calculateSize 1 (new_QuickZipStream [hi_txt, empty_txt] example_cache) =
     (None, (new_QuickZipStream [hi_txt, empty_txt] example_cache)
                  \<lparr>walker := [empty_txt], consumedCalculating := [hi_txt]\<rparr>)"
  by (simp add: calculateSize_def new_QuickZipStream_def)

theorem calculateSize_replay_witness:
  "\<exists>st1 st2. calculateSize 1 (new_QuickZipStream [hi_txt, empty_txt] example_cache) = (None, st1) \<and>
     consumedCalculating st1 = [hi_txt] \<and> walker st1 = [empty_txt] \<and>
     drain crc32_ieee st1 = Inr st2 \<and> numberOfFiles st2 = 2 \<and>
     entries_match 0 [hi_txt, empty_txt] (centralDir st2) \<and>
     take 77 (pushed st2) = local_bytes hi_txt @ local_bytes empty_txt"
proof -
  let ?st1 = "(new_QuickZipStream [hi_txt, empty_txt] example_cache)
                  \<lparr>walker := [empty_txt], consumedCalculating := [hi_txt]\<rparr>"
  have i: "unranged ?st1" "\<not> finished ?st1" "\<not> workingFile ?st1"
    "pending ?st1 = [hi_txt, empty_txt]" "centralDir ?st1 = []" "dataWritten ?st1 = 0"
    "numberOfFiles ?st1 = 0"
    by (simp_all add: new_QuickZipStream_def unranged_def pending_def)
  have b: "directory_size 0 [hi_txt, empty_txt] = 107" "stream_size [hi_txt, empty_txt] = 77"
    by (simp_all add: hi_txt_def empty_txt_def ZIP64_LIMIT_def)
  have "\<exists>st2. reads crc32_ieee (Suc (length (pending ?st1))) ?st1 = Inr st2"
    by (rule reads_drain_succeeds[OF i(1-3)])
       (simp_all add: i wf_ok_examples b central_size_def
          del: directory_size.simps stream_size_simps)
  then obtain st2 where d: "drain crc32_ieee ?st1 = Inr st2"
    by (auto simp: drain_def)
  have wf: "\<forall>f\<in>set [hi_txt, empty_txt]. wf_source f" by (simp add: wf_ok_examples)
  from calculateSize_replay[OF calculateSize_example_expired, of crc32_ieee st2] wf d
  obtain dir where c: "numberOfFiles st2 = length [hi_txt, empty_txt]"
    "entries_match 0 [hi_txt, empty_txt] (centralDir st2)"
    "pushed st2 = concat (map local_bytes [hi_txt, empty_txt]) @ dir"
    by blast
  from reads_drain_unranged[OF i(1-3)] wf d
  have l: "length (concat (map local_bytes [hi_txt, empty_txt])) = stream_size [hi_txt, empty_txt]"
    unfolding i drain_def by blast
  have "stream_size [hi_txt, empty_txt] = 77" by (simp add: hi_txt_def empty_txt_def)
  with l c(3) have "take 77 (pushed st2) = local_bytes hi_txt @ local_bytes empty_txt"
    by simp
  with calculateSize_example_expired d c(1,2) show ?thesis
    by (intro exI[of _ ?st1] exI[of _ st2]) simp
qed


subsection \<open>The range window\<close>

lemma do_push_within:
  "skip st = 0 \<Longrightarrow> limit st = Some l \<Longrightarrow> length c \<le> l \<Longrightarrow> \<not> ended st \<Longrightarrow>
   do_push c st = st\<lparr>dataWritten := dataWritten st + length c, pushed := pushed st @ c\<rparr>"
  by (simp add: do_push_def Let_def readable_push_def)

lemma do_push_after_end:
  "ended st \<Longrightarrow> pushed (do_push c st) = pushed st \<and> ended (do_push c st)"
  by (simp add: do_push_def Let_def readable_push_def earlyClose_def split: option.splits)

lemma source_ok_entry:
  "source_ok f \<Longrightarrow> entry_for f d e \<Longrightarrow> size_src f < 4294967296 \<Longrightarrow> d < 4294967296 \<Longrightarrow>
     entry_ok e"
  by (simp add: source_ok_def entry_for_def entry_ok_def)

text \<open>
  C2. The specification says that after \<^verbatim>\<open>applyRange(start, end)\<close> the output is the slice
  \<open>[start, end]\<close> of the unranged output. \<^verbatim>\<open>_push\<close> compares \<open>limit\<close> with the length
  of each chunk and never decreases it (\<open>do_push_fields\<close>: the limit after a push is the
  limit before), so the output ends only at the first single chunk longer than the whole
  window. For one source \<^verbatim>\<open>hi.txt\<close> of two bytes and \<^verbatim>\<open>applyRange(0, 29)\<close>: the
  first \<^verbatim>\<open>_read\<close> pushes the 30-byte local header, the 6-byte path and the 2 bytes of
  data, 38 bytes, and leaves the stream open; the drain ends inside the central directory
  record with 68 bytes pushed. The unranged output has 112 bytes and its slice \<open>[0, 29]\<close>
  has 30.
\<close>

theorem applyRange_limit_per_chunk:
  "\<exists>st1 st2 full.
     do_read crc32_ieee (applyRange 0 29 (new_QuickZipStream [hi_txt] Map.empty)) = Inr st1 \<and>
     length (pushed st1) = 38 \<and> \<not> finished st1 \<and> limit st1 = Some 30 \<and>
     drain crc32_ieee (applyRange 0 29 (new_QuickZipStream [hi_txt] Map.empty)) = Inr st2 \<and>
     length (pushed st2) = 68 \<and>
     drain crc32_ieee (new_QuickZipStream [hi_txt] Map.empty) = Inr full \<and>
     length (pushed full) = 112 \<and> length (take (29 - 0 + 1) (drop 0 (pushed full))) = 30"
proof -
  let ?s = "applyRange 0 29 (new_QuickZipStream [hi_txt] Map.empty)"
  let ?q = "applyRange 0 29 (new_QuickZipStream [] Map.empty)"
  define a where "a = ?q\<lparr>numberOfFiles := numberOfFiles ?q + 1\<rparr>"
  have s: "\<not> workingFile ?s" "\<not> finished ?s" "pending ?s = hi_txt # []"
    by (simp_all add: applyRange_def new_QuickZipStream_def pending_def)
  have nf: "next_file ?s = (Some hi_txt, ?q)"
    by (simp add: applyRange_def new_QuickZipStream_def next_file_def)
  have a: "skip a = 0" "limit a = Some 30" "\<not> ended a" "pushed a = []"
    "\<not> finished a" "dataWritten a = 0" "centralDir a = []" "cache a = Map.empty"
    "numberOfFiles a = 1" "consumedCalculating a = []" "walker a = []" "\<not> workingFile a"
    "opened a = 0"
    by (simp_all add: a_def applyRange_def new_QuickZipStream_def)
  have v: "valid_Date (ts hi_txt)" "length (path hi_txt) < 65536" "length (path hi_txt) = 6"
    "size_src hi_txt = 2" "getData hi_txt = [utf8 ''hi'']"
    by (simp_all add: hi_txt_def valid_example_date)
  from local_header_succeeds[OF v(1,2)] obtain hdr where hdr: "buffer (local_header hi_txt) = Inr hdr"
    by blast
  have l: "length hdr = 30"
    using buffer_length[OF hdr] by (simp add: pairs_total_local_header)
  define b where "b = do_push hdr a"
  have "b = a\<lparr>dataWritten := dataWritten a + length hdr, pushed := pushed a @ hdr\<rparr>"
    unfolding b_def using a l by (intro do_push_within[of _ 30]) simp_all
  then have b: "skip b = 0" "limit b = Some 30" "\<not> ended b" "length (pushed b) = 30"
    "\<not> finished b" "dataWritten b = 30" "centralDir b = []" "cache b = Map.empty"
    "numberOfFiles b = 1" "consumedCalculating b = []" "walker b = []" "\<not> workingFile b"
    "opened b = 0"
    using a l by simp_all
  define c where "c = do_push (utf8 (path hi_txt)) b"
  have "c = b\<lparr>dataWritten := dataWritten b + length (utf8 (path hi_txt)),
                pushed := pushed b @ utf8 (path hi_txt)\<rparr>"
    unfolding c_def using b v by (intro do_push_within[of _ 30]) simp_all
  then have cf: "skip c = 0" "limit c = Some 30" "\<not> ended c" "length (pushed c) = 36"
    "\<not> finished c" "dataWritten c = 36" "centralDir c = []" "cache c = Map.empty"
    "numberOfFiles c = 1" "consumedCalculating c = []" "walker c = []" "\<not> workingFile c"
    "opened c = 0"
    using b v by simp_all
  have p: "push_local_header hi_txt (?q\<lparr>numberOfFiles := numberOfFiles ?q + 1\<rparr>) = Inr c"
    unfolding c_def b_def a_def
    by (simp only: push_local_header_def do_push_array_def hdr sum.case)
  have ns: "\<not> skipped c hi_txt"
    using cf(1) v(4) by (simp add: skipped_def)
  have ds: "dataWritten ?s = 0" by (simp add: applyRange_def new_QuickZipStream_def)
  define d where "d = c\<lparr>opened := opened c + 1, workingFile := True\<rparr>"
  from read_data_streamed[OF ns, of 0 crc32_ieee] obtain e crc0 where
    e: "entry_for hi_txt 0 e"
    and rd: "read_data crc32_ieee hi_txt 0 c =
       on_data crc32_ieee (cacheHit (cache c) hi_txt) hi_txt e crc0 (getData hi_txt) d"
    unfolding d_def by blast
  have dd: "skip d = 0" "limit d = Some 30" "\<not> ended d" "length (pushed d) = 36"
    "\<not> finished d" "dataWritten d = 36" "centralDir d = []"
    "numberOfFiles d = 1" "consumedCalculating d = []" "walker d = []"
    unfolding d_def using cf by simp_all
  define g where "g = do_push (utf8 ''hi'') d"
  have "g = d\<lparr>dataWritten := dataWritten d + length (utf8 ''hi''),
                pushed := pushed d @ utf8 ''hi''\<rparr>"
    unfolding g_def using dd by (intro do_push_within[of _ 30]) simp_all
  then have gg: "skip g = 0" "limit g = Some 30" "\<not> ended g" "length (pushed g) = 38"
    "\<not> finished g" "dataWritten g = 38" "centralDir g = []"
    "numberOfFiles g = 1" "consumedCalculating g = []" "walker g = []"
    using dd by simp_all
  define crc1 where "crc1 = (if cacheHit (cache c) hi_txt then crc0
                             else crc32_ieee (utf8 ''hi'') (Some crc0))"
  define st1 where "st1 = read_data crc32_ieee hi_txt 0 c"
  have r1: "do_read crc32_ieee ?s = Inr st1"
    unfolding do_read_file[OF s(1,2) nf] p st1_def ds using cf(5) by simp
  have "on_data crc32_ieee (cacheHit (cache c) hi_txt) hi_txt e crc0 [utf8 ''hi''] d
          = on_end hi_txt e crc1 g"
    using gg(5) by (simp add: Let_def g_def[symmetric] crc1_def)
  then have st1: "st1 = on_end hi_txt e crc1 g"
    unfolding st1_def rd v(5) .
  have f1: "length (pushed st1) = 38" "\<not> finished st1" "limit st1 = Some 30"
    "skip st1 = 0" "\<not> ended st1" "\<not> workingFile st1" "pending st1 = []"
    "numberOfFiles st1 = 1" "dataWritten st1 = 38"
    "centralDir st1 = [e\<lparr>crc_cd := crc1\<rparr>]"
    unfolding st1 using gg by (simp_all add: pending_def)
  define e1 where "e1 = e\<lparr>crc_cd := crc1\<rparr>"
  have eo: "entry_ok e1"
    using source_ok_entry[OF wf_ok_examples(3), of 0 e1] e v(4) by (simp add: e1_def)
  have pe: "length (pathAsBuffer e1) = 6"
    using e v(3) by (simp add: entry_for_def e1_def)
  have xs: "extra_size e1 = 0"
    using e v(4) by (simp add: entry_for_def extra_size_def ZIP64_LIMIT_def e1_def)
  have cd1: "centralDir st1 = [e1]" using f1(10) by (simp add: e1_def)
  have "\<exists>st2. closeArchive st1 = Inr st2"
    by (rule closeArchive_succeeds)
       (simp_all add: f1(8,9) cd1 eo central_size_def pe xs)
  then obtain st2 where ca: "closeArchive st1 = Inr st2" by blast
  from closeArchive_Inr[OF ca] obtain u1 u2 eb where
    cr: "central_records (centralDir st1) (st1\<lparr>finished := True\<rparr>) = Inr u1"
    and z: "if dataWritten st1 > ZIP64_LIMIT
      then zip64_end (length (centralDir st1)) (dataWritten u1 - dataWritten st1)
             (dataWritten st1) (dataWritten u1) u1 = Inr u2
      else u2 = u1"
    and st2: "st2 = (do_push eb u2)\<lparr>ended := True\<rparr>"
    by blast
  have u2: "u2 = u1" using z f1(9) by (simp add: ZIP64_LIMIT_def)
  define t where "t = st1\<lparr>finished := True\<rparr>"
  from cr obtain extra sz off x h46 where
    h46: "buffer (central_header e1 x sz off) = Inr h46"
    and u1: "u1 = do_push x (do_push (pathAsBuffer e1) (do_push h46 t))"
    unfolding cd1 t_def
    by (auto simp: central_record_def do_push_array_Inr split: sum.splits prod.splits)
  have l46: "length h46 = 46" using buffer_central_header(1)[OF h46] .
  have "skip t = 0" "limit t = Some 30" "30 < length h46"
    unfolding t_def using f1 l46 by simp_all
  from do_push_last_bit[OF this]
  have lb: "ended (do_push h46 t)" "pushed (do_push h46 t) = pushed st1 @ take 30 h46"
    unfolding t_def using f1(5) by simp_all
  have "pushed u1 = pushed st1 @ take 30 h46 \<and> ended u1"
    unfolding u1 using lb by (simp add: do_push_after_end)
  then have "pushed st2 = pushed st1 @ take 30 h46"
    unfolding st2 u2 by (simp add: do_push_after_end)
  then have len2: "length (pushed st2) = 68" using f1(1) l46 by simp
  have r2: "do_read crc32_ieee st1 = Inr st2"
    using do_read_close[OF f1(6,2,7), of crc32_ieee] ca by simp
  have dr: "drain crc32_ieee ?s = Inr st2"
    using reads_two[OF r1 r2] s(3) by (simp add: drain_def numeral_2_eq_2)

  let ?n = "new_QuickZipStream [hi_txt] Map.empty"
  have ab: "directory_size 0 [hi_txt] = 52" "stream_size [hi_txt] = 38"
    by (simp_all add: hi_txt_def ZIP64_LIMIT_def)
  have "\<exists>full. reads crc32_ieee (Suc (length (pending ?n))) ?n = Inr full"
    by (rule reads_drain_succeeds[OF new_unranged(1-3)])
       (simp_all add: new_unranged wf_ok_examples ab central_size_def
          del: directory_size.simps stream_size_simps)
  then obtain full where fr: "reads crc32_ieee (Suc (length (pending ?n))) ?n = Inr full"
    by blast
  have wf: "\<forall>f\<in>set (pending ?n). wf_source f" by (simp add: new_unranged wf_ok_examples)
  from reads_drain_unranged[OF new_unranged(1-3) wf fr] obtain es dir where
    m: "entries_match 0 [hi_txt] es" "centralDir full = es"
    and pf: "pushed full = concat (map local_bytes [hi_txt]) @ dir"
    and ls: "length (concat (map local_bytes [hi_txt])) = stream_size [hi_txt]"
    and ld: "length dir = central_size es + (if stream_size [hi_txt] > ZIP64_LIMIT then 76 else 0) + 22"
    unfolding new_unranged by auto
  from m(1) obtain e0 where es: "es = [e0]" "entry_for hi_txt 0 e0"
    by (cases es) (auto elim: entries_match.elims)
  have ss: "stream_size [hi_txt] = 38" using v by simp
  have "central_size es = 52"
    using es v by (simp add: central_size_def entry_for_def extra_size_def ZIP64_LIMIT_def)
  then have lf: "length (pushed full) = 112"
    using pf ls ld ss by (simp add: ZIP64_LIMIT_def)
  have df: "drain crc32_ieee ?n = Inr full" using fr by (simp add: drain_def)
  show ?thesis
    using r1 f1(1-3) dr len2 df lf by (intro exI[of _ st1] exI[of _ st2] exI[of _ full]) simp
qed


end
